theory Spec2Isabelle
  imports Complex_Main "HOL-Library.Multiset"
begin

section \<open>Camera/lidar fusion: a shallow embedding of camFusion\_Student.cpp\<close>

text \<open>
  The development follows the C++ source function by function. Conventions:
  \<^item> \<open>double\<close> and \<open>float\<close> values that the code reads are idealised as \<open>real\<close>
    (exact arithmetic, no rounding, no overflow). Where the code can produce a
    non-finite \<open>double\<close> (the literal \<open>NAN\<close>, a division by zero) the result type is
    \<open>dbl\<close>, which adds the two infinities and NaN to the reals.
  \<^item> \<open>std::vector\<close> is a list; a vector iterator is a position in the list.
  \<^item> An access that the C++ standard or the library leaves undefined (unchecked
    \<open>operator[]\<close> out of range, dereferencing \<open>end()\<close>) is the error value
    \<open>UndefinedBehaviour\<close>; \<open>vector::at\<close> out of range and a failed OpenCV range check
    are \<open>OutOfRange\<close>. A function that can reach one returns \<open>error + 'a\<close>. The one
    place where the model follows the implementations instead, the iterator that
    \<open>clusterKptMatchesWithROI\<close> keeps across \<open>vector::erase\<close>, is described there.
  \<^item> Indices (\<open>int\<close> in the source) are natural numbers: the code never computes a
    negative one.
\<close>

datatype error = OutOfRange | UndefinedBehaviour

subsection \<open>Doubles with infinities and NaN\<close>

datatype dbl = Fin real | PInf | MInf | NaN

text \<open>
  IEEE division and multiplication on \<open>dbl\<close>. A real zero stands for \<open>+0\<close>, which is
  what \<open>a - a\<close> and \<open>1 - 1\<close> give in the code's rounding mode; signed zeros are not
  tracked.
\<close>

fun ddiv :: "dbl \<Rightarrow> dbl \<Rightarrow> dbl" where
  "ddiv NaN _ = NaN"
| "ddiv _ NaN = NaN"
| "ddiv (Fin a) (Fin b) =
     (if b = 0 then (if a = 0 then NaN else if 0 < a then PInf else MInf) else Fin (a / b))"
| "ddiv (Fin a) PInf = Fin 0"
| "ddiv (Fin a) MInf = Fin 0"
| "ddiv PInf (Fin b) = (if 0 \<le> b then PInf else MInf)"
| "ddiv MInf (Fin b) = (if 0 \<le> b then MInf else PInf)"
| "ddiv PInf PInf = NaN"
| "ddiv PInf MInf = NaN"
| "ddiv MInf PInf = NaN"
| "ddiv MInf MInf = NaN"

fun dmul :: "dbl \<Rightarrow> dbl \<Rightarrow> dbl" where
  "dmul NaN _ = NaN"
| "dmul _ NaN = NaN"
| "dmul (Fin a) (Fin b) = Fin (a * b)"
| "dmul (Fin a) PInf = (if a = 0 then NaN else if 0 < a then PInf else MInf)"
| "dmul (Fin a) MInf = (if a = 0 then NaN else if 0 < a then MInf else PInf)"
| "dmul PInf (Fin b) = (if b = 0 then NaN else if 0 < b then PInf else MInf)"
| "dmul MInf (Fin b) = (if b = 0 then NaN else if 0 < b then MInf else PInf)"
| "dmul PInf PInf = PInf"
| "dmul PInf MInf = MInf"
| "dmul MInf PInf = MInf"
| "dmul MInf MInf = PInf"

fun dneg :: "dbl \<Rightarrow> dbl" where
  "dneg (Fin a) = Fin (- a)"
| "dneg PInf = MInf"
| "dneg MInf = PInf"
| "dneg NaN = NaN"

subsection \<open>The k-d tree\<close>

type_synonym point3 = "real \<times> real \<times> real"

text \<open>
  Modelled from the spec: the class \<open>KdTree\<close> (its header is not among the source
  files). The spec's contract for it: \<open>insert(point, id)\<close> adds a 3D point;
  \<open>search(point, radius)\<close> returns all inserted ids whose indexed point lies within
  Euclidean distance \<open>radius\<close> of \<open>point\<close> (closed ball, ties included). The tree is
  represented by the list of its entries in insertion order; the order in which
  \<open>search\<close> lists the ids is not fixed by the spec, and no theorem below depends on it.
\<close>

type_synonym KdTree = "(point3 \<times> nat) list"

definition kd_insert :: "KdTree \<Rightarrow> point3 \<Rightarrow> nat \<Rightarrow> KdTree" where
  "kd_insert tree p i = tree @ [(p, i)]"

fun distance3 :: "point3 \<Rightarrow> point3 \<Rightarrow> real" where
  "distance3 (x1, y1, z1) (x2, y2, z2) = sqrt ((x1 - x2)\<^sup>2 + (y1 - y2)\<^sup>2 + (z1 - z2)\<^sup>2)"

definition within_radius :: "point3 \<Rightarrow> point3 \<Rightarrow> real \<Rightarrow> bool" where
  "within_radius q p r \<longleftrightarrow> distance3 q p \<le> r"

definition kd_search :: "KdTree \<Rightarrow> point3 \<Rightarrow> real \<Rightarrow> nat list" where
  "kd_search tree p r = map snd (filter (\<lambda>(q, i). within_radius q p r) tree)"

text \<open>Every id stored in the tree is below \<open>n\<close>.\<close>

definition tree_ids_below :: "KdTree \<Rightarrow> nat \<Rightarrow> bool" where
  "tree_ids_below tree n = list_all (\<lambda>(q, i). i < n) tree"

text \<open>The closed-ball test without the square root, for evaluation.\<close>

lemma within_radius_iff:
  "within_radius (x1, y1, z1) (x2, y2, z2) r \<longleftrightarrow>
     0 \<le> r \<and> (x1 - x2)\<^sup>2 + (y1 - y2)\<^sup>2 + (z1 - z2)\<^sup>2 \<le> r\<^sup>2"
proof -
  let ?a = "(x1 - x2)\<^sup>2 + (y1 - y2)\<^sup>2 + (z1 - z2)\<^sup>2"
  have a: "0 \<le> ?a" by simp
  show ?thesis
  proof (cases "0 \<le> r")
    case True
    then have "sqrt ?a \<le> r \<longleftrightarrow> ?a \<le> r\<^sup>2"
      by (metis real_sqrt_le_iff real_sqrt_abs abs_of_nonneg)
    with True show ?thesis by (simp add: within_radius_def)
  next
    case False
    moreover have "0 \<le> sqrt ?a" using a by simp
    ultimately have "\<not> sqrt ?a \<le> r" by linarith
    with False show ?thesis by (simp add: within_radius_def)
  qed
qed

subsection \<open>clusterHelper and euclideanCluster\<close>

text \<open>
  \<open>clusterHelper\<close> mutates \<open>cluster\<close> and \<open>processed\<close> through references; the model
  passes the pair and returns it. \<open>clusterHelper_for\<close> is the \<open>for (int id : nearest)\<close>
  loop of its body. \<open>processed[index]\<close> and \<open>points[index]\<close> are unchecked accesses.
\<close>

type_synonym cstate = "nat list \<times> bool list"

function clusterHelper :: "nat \<Rightarrow> point3 list \<Rightarrow> cstate \<Rightarrow> KdTree \<Rightarrow> real \<Rightarrow> error + cstate"
  and clusterHelper_for :: "nat list \<Rightarrow> point3 list \<Rightarrow> cstate \<Rightarrow> KdTree \<Rightarrow> real \<Rightarrow> error + cstate"
where
  "clusterHelper index points (cluster, processed) tree distanceTol =
     (if index < length processed \<and> index < length points then
        clusterHelper_for (kd_search tree (points ! index) distanceTol) points
          (cluster @ [index], processed[index := True]) tree distanceTol
      else Inl UndefinedBehaviour)"
| "clusterHelper_for [] points st tree distanceTol = Inr st"
| "clusterHelper_for (i # ids) points (cluster, processed) tree distanceTol =
     (if i < length processed then
        (if \<not> processed ! i then
           (case clusterHelper i points (cluster, processed) tree distanceTol of
              Inl e \<Rightarrow> Inl e
            | Inr st' \<Rightarrow> clusterHelper_for ids points st' tree distanceTol)
         else clusterHelper_for ids points (cluster, processed) tree distanceTol)
      else Inl UndefinedBehaviour)"
  by pat_completeness auto

text \<open>
  The recursion ends because every call of \<open>clusterHelper\<close> on an unprocessed index
  marks one more index: the number of unmarked entries is the measure.
\<close>

definition unprocessed :: "bool list \<Rightarrow> nat" where
  "unprocessed processed = length (filter Not processed)"

lemma unprocessed_mark_le: "unprocessed (p[i := True]) \<le> unprocessed p"
proof (induction p arbitrary: i)
  case Nil
  then show ?case by (simp add: unprocessed_def)
next
  case (Cons b p)
  then show ?case by (cases i) (auto simp: unprocessed_def le_SucI)
qed

lemma unprocessed_mark_less:
  "i < length p \<Longrightarrow> \<not> p ! i \<Longrightarrow> unprocessed (p[i := True]) < unprocessed p"
proof (induction p arbitrary: i)
  case Nil
  then show ?case by simp
next
  case (Cons b p)
  show ?case
  proof (cases i)
    case 0
    with Cons.prems show ?thesis by (simp add: unprocessed_def)
  next
    case (Suc j)
    with Cons.prems have "j < length p" "\<not> p ! j" by simp_all
    from Cons.IH[OF this] Suc show ?thesis by (simp add: unprocessed_def)
  qed
qed

lemma clusterHelper_dom_mono:
  "clusterHelper_clusterHelper_for_dom (Inl (index, points, st, tree, tol)) \<Longrightarrow>
     clusterHelper index points st tree tol = Inr st' \<Longrightarrow>
     unprocessed (snd st') \<le> unprocessed ((snd st)[index := True]) \<and>
     length (snd st') = length (snd st)"
  "clusterHelper_clusterHelper_for_dom (Inr (ids, points, st, tree, tol)) \<Longrightarrow>
     clusterHelper_for ids points st tree tol = Inr st' \<Longrightarrow>
     unprocessed (snd st') \<le> unprocessed (snd st) \<and> length (snd st') = length (snd st)"
proof (induction index points st tree tol and ids points st tree tol arbitrary: st' and st'
    rule: clusterHelper_clusterHelper_for.pinduct)
  case (1 index points cluster processed tree distanceTol)
  then show ?case
    by (auto simp: clusterHelper.psimps split: if_splits)
next
  case (2 points st tree distanceTol)
  then show ?case by (auto simp: clusterHelper_for.psimps)
next
  case (3 i ids points cluster processed tree distanceTol)
  show ?case
  proof (cases "i < length processed")
    case False
    with 3 show ?thesis by (simp add: clusterHelper_for.psimps)
  next
    case inr: True
    show ?thesis
    proof (cases "processed ! i")
      case True
      with 3 inr show ?thesis by (simp add: clusterHelper_for.psimps)
    next
      case False
      with 3(1,5) inr obtain b where
        b: "clusterHelper i points (cluster, processed) tree distanceTol = Inr b"
        and r: "clusterHelper_for ids points b tree distanceTol = Inr st'"
        by (auto simp: clusterHelper_for.psimps split: sum.splits)
      from 3(2)[OF inr False b]
      have "unprocessed (snd b) \<le> unprocessed (processed[i := True])"
        and "length (snd b) = length processed" by simp_all
      moreover from 3(3)[OF inr False b r]
      have "unprocessed (snd st') \<le> unprocessed (snd b)"
        and "length (snd st') = length (snd b)" by simp_all
      moreover have "unprocessed (processed[i := True]) \<le> unprocessed processed"
        by (rule unprocessed_mark_le)
      ultimately show ?thesis by simp
    qed
  qed
qed

termination clusterHelper
proof (relation "measures [
    (\<lambda>a. case a of
        Inl (index, points, st, tree, tol) \<Rightarrow> 2 * unprocessed ((snd st)[index := True]) + 1
      | Inr (ids, points, st, tree, tol) \<Rightarrow> 2 * unprocessed (snd st)),
    (\<lambda>a. case a of
        Inl (index, points, st, tree, tol) \<Rightarrow> 0
      | Inr (ids, points, st, tree, tol) \<Rightarrow> length ids)]", goal_cases)
  case 1
  then show ?case by simp
next
  case (2 index points cluster processed tree distanceTol)
  then show ?case by simp
next
  case (3 i ids points cluster processed tree distanceTol)
  then show ?case using unprocessed_mark_less[of i processed] by simp
next
  case (4 i ids points cluster processed tree distanceTol b)
  then show ?case
    using clusterHelper_dom_mono(1)[of i points "(cluster, processed)" tree distanceTol b]
      unprocessed_mark_le[of processed i]
    by auto
next
  case (5 i ids points cluster processed tree distanceTol)
  then show ?case by simp
qed

text \<open>
  The \<open>while (i < points.size())\<close> loop of \<open>euclideanCluster\<close>, with its local
  variables \<open>i\<close>, \<open>clusters\<close> and \<open>processed\<close> as arguments.
\<close>

function euclideanCluster_while ::
  "nat \<Rightarrow> point3 list \<Rightarrow> nat list list \<Rightarrow> bool list \<Rightarrow> KdTree \<Rightarrow> real \<Rightarrow> error + nat list list"
where
  "euclideanCluster_while i points clusters processed tree distanceTol =
     (if i < length points then
        (if i < length processed then
           (if processed ! i then
              euclideanCluster_while (i + 1) points clusters processed tree distanceTol
            else
              (case clusterHelper i points ([], processed) tree distanceTol of
                 Inl e \<Rightarrow> Inl e
               | Inr (cluster, processed') \<Rightarrow>
                   euclideanCluster_while (i + 1) points (clusters @ [cluster]) processed'
                     tree distanceTol))
         else Inl UndefinedBehaviour)
      else Inr clusters)"
  by pat_completeness auto
termination
  by (relation "measure (\<lambda>(i, points, clusters, processed, tree, tol). length points - i)") auto

definition euclideanCluster :: "point3 list \<Rightarrow> KdTree \<Rightarrow> real \<Rightarrow> error + nat list list" where
  "euclideanCluster points tree distanceTol =
     euclideanCluster_while 0 points [] (replicate (length points) False) tree distanceTol"

subsection \<open>The clusters partition the index set\<close>

text \<open>
  \<open>grows p p' new\<close>: going from the marks \<open>p\<close> to the marks \<open>p'\<close> marked exactly the
  indices in \<open>new\<close>, each once, and unmarked nothing.
\<close>

definition grows :: "bool list \<Rightarrow> bool list \<Rightarrow> nat list \<Rightarrow> bool" where
  "grows p p' new \<longleftrightarrow>
     length p' = length p \<and> distinct new \<and>
     set new = {j. j < length p \<and> p' ! j \<and> \<not> p ! j} \<and>
     (\<forall>j < length p. p ! j \<longrightarrow> p' ! j)"

lemma grows_refl: "grows p p []"
  by (auto simp: grows_def)

lemma grows_mark: "i < length p \<Longrightarrow> \<not> p ! i \<Longrightarrow> grows p (p[i := True]) [i]"
  by (auto simp: grows_def nth_list_update)

lemma grows_trans:
  assumes "grows p p1 n1" and "grows p1 p2 n2"
  shows "grows p p2 (n1 @ n2)"
proof -
  from assms have len: "length p1 = length p" "length p2 = length p"
    by (simp_all add: grows_def)
  from assms have d: "distinct n1" "distinct n2" by (simp_all add: grows_def)
  from assms have s1: "set n1 = {j. j < length p \<and> p1 ! j \<and> \<not> p ! j}"
    and s2: "set n2 = {j. j < length p \<and> p2 ! j \<and> \<not> p1 ! j}"
    by (simp_all add: grows_def)
  from assms have m1: "\<And>j. j < length p \<Longrightarrow> p ! j \<Longrightarrow> p1 ! j"
    and m2: "\<And>j. j < length p \<Longrightarrow> p1 ! j \<Longrightarrow> p2 ! j"
    by (simp_all add: grows_def)
  have "set n1 \<inter> set n2 = {}" using s1 s2 by auto
  with d have "distinct (n1 @ n2)" by simp
  moreover have "set (n1 @ n2) = {j. j < length p \<and> p2 ! j \<and> \<not> p ! j}"
    using s1 s2 m1 m2 by auto
  moreover have "\<forall>j < length p. p ! j \<longrightarrow> p2 ! j" using m1 m2 by blast
  ultimately show ?thesis using len by (simp add: grows_def)
qed

lemma kd_search_ids: "tree_ids_below tree n \<Longrightarrow> i \<in> set (kd_search tree p r) \<Longrightarrow> i < n"
  by (auto simp: tree_ids_below_def kd_search_def list_all_iff)

lemma clusterHelper_grows:
  "tree_ids_below tree (length points) \<Longrightarrow> length (snd st) = length points \<Longrightarrow>
     index < length points \<Longrightarrow> \<not> snd st ! index \<Longrightarrow>
     \<exists>new p'. clusterHelper index points st tree tol = Inr (fst st @ index # new, p') \<and>
        grows (snd st) p' (index # new)"
  "tree_ids_below tree (length points) \<Longrightarrow> length (snd st) = length points \<Longrightarrow>
     \<forall>i \<in> set ids. i < length points \<Longrightarrow>
     \<exists>new p'. clusterHelper_for ids points st tree tol = Inr (fst st @ new, p') \<and>
        grows (snd st) p' new"
proof (induction index points st tree tol and ids points st tree tol
    rule: clusterHelper_clusterHelper_for.induct)
  case (1 index points cluster processed tree distanceTol)
  let ?p1 = "processed[index := True]"
  from 1 have idx: "index < length processed" "index < length points" "\<not> processed ! index"
    by simp_all
  have "\<forall>i \<in> set (kd_search tree (points ! index) distanceTol). i < length points"
    using kd_search_ids[OF "1.prems"(1)] by blast
  with "1.IH" idx "1.prems" obtain new p' where
    r: "clusterHelper_for (kd_search tree (points ! index) distanceTol) points
          (cluster @ [index], ?p1) tree distanceTol = Inr ((cluster @ [index]) @ new, p')"
    and g: "grows ?p1 p' new"
    by force
  from grows_trans[OF grows_mark[OF idx(1) idx(3)] g]
  have "grows processed p' (index # new)" by simp
  with r idx show ?case by simp
next
  case (2 points st tree distanceTol)
  have "st = (fst st @ [], snd st)" by simp
  with grows_refl[of "snd st"] show ?case
    by (metis clusterHelper_for.simps(1))
next
  case (3 i ids points cluster processed tree distanceTol)
  from "3.prems" have il: "i < length processed" and ids: "\<forall>j \<in> set ids. j < length points"
    and len: "length processed = length points"
    by simp_all
  show ?case
  proof (cases "processed ! i")
    case True
    with "3.IH"(3)[OF il] "3.prems" ids il show ?thesis by simp
  next
    case False
    from "3.IH"(1)[OF il False "3.prems"(1)] len il False obtain new1 p1 where
      r1: "clusterHelper i points (cluster, processed) tree distanceTol
             = Inr (cluster @ i # new1, p1)"
      and g1: "grows processed p1 (i # new1)"
      by auto
    from g1 have len1: "length p1 = length points" using len by (simp add: grows_def)
    from "3.IH"(2)[OF il False r1 "3.prems"(1)] len1 ids obtain new2 p2 where
      r2: "clusterHelper_for ids points (cluster @ i # new1, p1) tree distanceTol
             = Inr ((cluster @ i # new1) @ new2, p2)"
      and g2: "grows p1 p2 new2"
      by auto
    from grows_trans[OF g1 g2] have "grows processed p2 ((i # new1) @ new2)" .
    with r1 r2 il False show ?thesis by simp
  qed
qed

lemma euclideanCluster_while_partition:
  "tree_ids_below tree (length points) \<Longrightarrow> length processed = length points \<Longrightarrow>
   distinct (concat clusters) \<Longrightarrow>
   set (concat clusters) = {j. j < length points \<and> processed ! j} \<Longrightarrow>
   \<forall>j < i. j < length points \<longrightarrow> processed ! j \<Longrightarrow> [] \<notin> set clusters \<Longrightarrow>
   \<exists>cs. euclideanCluster_while i points clusters processed tree tol = Inr cs \<and>
      distinct (concat cs) \<and> set (concat cs) = {j. j < length points} \<and> [] \<notin> set cs"
proof (induction i points clusters processed tree tol rule: euclideanCluster_while.induct)
  case (1 i points clusters processed tree distanceTol)
  show ?case
  proof (cases "i < length points")
    case False
    with "1.prems" have "set (concat clusters) = {j. j < length points}" by auto
    with False "1.prems" show ?thesis by simp
  next
    case True
    with "1.prems" have il: "i < length processed" by simp
    show ?thesis
    proof (cases "processed ! i")
      case pi: True
      have "\<forall>j < i + 1. j < length points \<longrightarrow> processed ! j"
        using "1.prems"(5) pi by (auto simp: less_Suc_eq)
      from "1.IH"(1)[OF True il pi "1.prems"(1-4) this "1.prems"(6)] True il pi
      show ?thesis by simp
    next
      case False
      from clusterHelper_grows(1)[of tree points "([], processed)" i distanceTol]
        "1.prems" True False
      obtain new p' where
        r: "clusterHelper i points ([], processed) tree distanceTol = Inr (i # new, p')"
        and g: "grows processed p' (i # new)" by auto
      from g "1.prems"(2) have len: "length p' = length points" by (simp add: grows_def)
      from g have dn: "distinct (i # new)"
        and sn: "set (i # new) = {j. j < length processed \<and> p' ! j \<and> \<not> processed ! j}"
        and mono: "\<forall>j < length processed. processed ! j \<longrightarrow> p' ! j"
        by (simp_all add: grows_def)
      have disj: "set (concat clusters) \<inter> set (i # new) = {}"
        using "1.prems"(4) sn by auto
      have d': "distinct (concat (clusters @ [i # new]))"
        using "1.prems"(3) dn disj by simp
      have s': "set (concat (clusters @ [i # new])) = {j. j < length points \<and> p' ! j}"
        using "1.prems"(2,4) sn mono by auto
      have pi': "p' ! i" using sn by auto
      have all': "\<forall>j < i + 1. j < length points \<longrightarrow> p' ! j"
        using "1.prems"(2,5) mono pi' by (auto simp: less_Suc_eq)
      have ne': "[] \<notin> set (clusters @ [i # new])" using "1.prems"(6) by simp
      from "1.IH"(2)[OF True il False r refl "1.prems"(1) len d' s' all' ne'] True il False r
      show ?thesis by simp
    qed
  qed
qed

lemma euclideanCluster_concat:
  assumes "tree_ids_below tree (length points)"
  shows "\<exists>cs. euclideanCluster points tree tol = Inr cs \<and>
      distinct (concat cs) \<and> set (concat cs) = {j. j < length points} \<and> [] \<notin> set cs"
  unfolding euclideanCluster_def
  by (rule euclideanCluster_while_partition[OF assms]) simp_all

subsection \<open>removeLidarOutlier\<close>

text \<open>
  \<open>LidarPoint\<close> (declared in a header that is not among the source files): the
  coordinates and the reflectivity, all \<open>double\<close>.
\<close>

record LidarPoint =
  lidar_x :: real
  lidar_y :: real
  lidar_z :: real
  lidar_r :: real

text \<open>
  The first loop of \<open>removeLidarOutlier\<close>: it pushes the coordinates of point \<open>i\<close>
  and inserts \<open>points[i]\<close> into the tree under the id \<open>i\<close>.
\<close>

fun removeLidarOutlier_insert ::
  "LidarPoint list \<Rightarrow> nat \<Rightarrow> point3 list \<Rightarrow> KdTree \<Rightarrow> error + point3 list \<times> KdTree"
where
  "removeLidarOutlier_insert [] i points tree = Inr (points, tree)"
| "removeLidarOutlier_insert (lp # rest) i points tree =
     (let point = (lidar_x lp, lidar_y lp, lidar_z lp);
          points' = points @ [point]
      in if i < length points'
         then removeLidarOutlier_insert rest (i + 1) points' (kd_insert tree (points' ! i) i)
         else Inl UndefinedBehaviour)"

text \<open>
  The second loop: \<open>temp\<close> collects the points of one cluster
  (\<open>lidarPoints[index]\<close>, unchecked) and replaces the best cluster so far only when it
  is strictly larger.
\<close>

fun removeLidarOutlier_select ::
  "LidarPoint list \<Rightarrow> nat list list \<Rightarrow> LidarPoint list \<Rightarrow> error + LidarPoint list"
where
  "removeLidarOutlier_select lidarPts [] maxLidarPointsCluster = Inr maxLidarPointsCluster"
| "removeLidarOutlier_select lidarPts (get_indices # rest) maxLidarPointsCluster =
     (if list_all (\<lambda>index. index < length lidarPts) get_indices then
        (let temp = map (\<lambda>index. lidarPts ! index) get_indices
         in removeLidarOutlier_select lidarPts rest
              (if length temp > length maxLidarPointsCluster then temp
               else maxLidarPointsCluster))
      else Inl UndefinedBehaviour)"

definition removeLidarOutlier :: "LidarPoint list \<Rightarrow> real \<Rightarrow> error + LidarPoint list" where
  "removeLidarOutlier lidarPts clusterTolerance =
     (case removeLidarOutlier_insert lidarPts 0 [] [] of
        Inl e \<Rightarrow> Inl e
      | Inr (points, tree) \<Rightarrow>
          (case euclideanCluster points tree clusterTolerance of
             Inl e \<Rightarrow> Inl e
           | Inr cluster_indices \<Rightarrow> removeLidarOutlier_select lidarPts cluster_indices []))"

definition lidar_xyz :: "LidarPoint \<Rightarrow> point3" where
  "lidar_xyz lp = (lidar_x lp, lidar_y lp, lidar_z lp)"

lemma removeLidarOutlier_insert_gen:
  "length points = i \<Longrightarrow>
   removeLidarOutlier_insert lps i points tree =
     Inr (points @ map lidar_xyz lps, tree @ zip (map lidar_xyz lps) [i ..< i + length lps])"
proof (induction lps arbitrary: i points tree)
  case Nil
  then show ?case by simp
next
  case (Cons lp lps)
  have "[i ..< i + length (lp # lps)] = i # [Suc i ..< Suc i + length lps]"
    by (subst upt_rec) simp
  with Cons.prems Cons.IH[of "points @ [lidar_xyz lp]" "Suc i" "kd_insert tree (lidar_xyz lp) i"]
  show ?case
    by (simp add: Let_def lidar_xyz_def kd_insert_def nth_append)
qed

lemma removeLidarOutlier_insert_eq:
  "removeLidarOutlier_insert lps 0 [] [] =
     Inr (map lidar_xyz lps, zip (map lidar_xyz lps) [0 ..< length lps])"
  using removeLidarOutlier_insert_gen[of "[]" 0 lps "[]"] by simp

lemma tree_ids_below_zip: "tree_ids_below (zip ps [0 ..< n]) n"
  by (auto simp: tree_ids_below_def list_all_iff dest: set_zip_rightD)

lemma removeLidarOutlier_select_spec:
  "\<forall>c \<in> set cs. \<forall>i \<in> set c. i < length lidarPts \<Longrightarrow>
   \<exists>res. removeLidarOutlier_select lidarPts cs maxc = Inr res \<and>
     ((\<forall>c \<in> set cs. length c \<le> length maxc) \<and> res = maxc \<or>
      (\<exists>k < length cs. res = map (\<lambda>index. lidarPts ! index) (cs ! k) \<and>
          length maxc < length (cs ! k) \<and>
          (\<forall>j < length cs. length (cs ! j) \<le> length (cs ! k)) \<and>
          (\<forall>j < k. length (cs ! j) < length (cs ! k))))"
proof (induction cs arbitrary: maxc)
  case Nil
  then show ?case by simp
next
  case (Cons c cs)
  let ?temp = "map (\<lambda>index. lidarPts ! index) c"
  let ?m = "if length ?temp > length maxc then ?temp else maxc"
  from Cons.prems have inr: "list_all (\<lambda>index. index < length lidarPts) c"
    and rest: "\<forall>c \<in> set cs. \<forall>i \<in> set c. i < length lidarPts"
    by (simp_all add: list_all_iff)
  from Cons.IH[OF rest, of ?m] obtain res where
    r: "removeLidarOutlier_select lidarPts cs ?m = Inr res"
    and alt: "(\<forall>c \<in> set cs. length c \<le> length ?m) \<and> res = ?m \<or>
      (\<exists>k < length cs. res = map (\<lambda>index. lidarPts ! index) (cs ! k) \<and>
          length ?m < length (cs ! k) \<and>
          (\<forall>j < length cs. length (cs ! j) \<le> length (cs ! k)) \<and>
          (\<forall>j < k. length (cs ! j) < length (cs ! k)))"
    by blast
  have step: "removeLidarOutlier_select lidarPts (c # cs) maxc = Inr res"
    using inr r by (simp add: Let_def)
  have lm: "length ?m = max (length c) (length maxc)" by simp
  from alt show ?case
  proof
    assume a: "(\<forall>c \<in> set cs. length c \<le> length ?m) \<and> res = ?m"
    show ?thesis
    proof (cases "length c > length maxc")
      case True
      with a have res: "res = ?temp" and le: "\<forall>c' \<in> set cs. length c' \<le> length c" by simp_all
      have "\<forall>j < length (c # cs). length ((c # cs) ! j) \<le> length ((c # cs) ! 0)"
        using le by (auto simp: nth_Cons')
      with res True step show ?thesis
        by (intro exI[of _ res] conjI disjI2 exI[of _ 0]) simp_all
    next
      case False
      with a have "res = maxc" and "\<forall>c' \<in> set (c # cs). length c' \<le> length maxc" by auto
      with step show ?thesis by blast
    qed
  next
    assume "\<exists>k < length cs. res = map (\<lambda>index. lidarPts ! index) (cs ! k) \<and>
          length ?m < length (cs ! k) \<and>
          (\<forall>j < length cs. length (cs ! j) \<le> length (cs ! k)) \<and>
          (\<forall>j < k. length (cs ! j) < length (cs ! k))"
    then obtain k where k: "k < length cs" "res = map (\<lambda>index. lidarPts ! index) (cs ! k)"
      "length ?m < length (cs ! k)"
      "\<forall>j < length cs. length (cs ! j) \<le> length (cs ! k)"
      "\<forall>j < k. length (cs ! j) < length (cs ! k)" by blast
    from k(3) lm have big: "length c < length (cs ! k)" "length maxc < length (cs ! k)"
      by simp_all
    have 1: "\<forall>j < length (c # cs). length ((c # cs) ! j) \<le> length ((c # cs) ! Suc k)"
      using k(4) big by (auto simp: nth_Cons')
    have 2: "\<forall>j < Suc k. length ((c # cs) ! j) < length ((c # cs) ! Suc k)"
      using k(5) big by (auto simp: nth_Cons' less_Suc_eq_0_disj)
    from k(1,2) big 1 2 step show ?thesis
      by (intro exI[of _ res] conjI disjI2 exI[of _ "Suc k"]) simp_all
  qed
qed

lemma mset_map_nth_subset:
  assumes "distinct is" and "\<forall>i \<in> set is. i < length xs"
  shows "mset (map (\<lambda>i. xs ! i) is) \<subseteq># mset xs"
proof -
  have "mset is \<subseteq># mset [0 ..< length xs]"
  proof -
    from assms(1) have "mset is = mset_set (set is)" by (simp add: mset_set_set)
    moreover have "mset [0 ..< length xs] = mset_set {0 ..< length xs}" by (simp add: mset_upt)
    moreover have "set is \<subseteq> {0 ..< length xs}" using assms(2) by auto
    ultimately show ?thesis by (simp add: subset_imp_msubset_mset_set)
  qed
  then have "image_mset (\<lambda>i. xs ! i) (mset is) \<subseteq># image_mset (\<lambda>i. xs ! i) (mset [0 ..< length xs])"
    by (rule image_mset_subseteq_mono)
  moreover have "image_mset (\<lambda>i. xs ! i) (mset [0 ..< length xs]) = mset xs"
    by (metis map_nth mset_map)
  ultimately show ?thesis by simp
qed

lemma removeLidarOutlier_total:
  "\<exists>clusters res.
     euclideanCluster (map lidar_xyz lidarPts) (zip (map lidar_xyz lidarPts) [0 ..< length lidarPts]) tol
       = Inr clusters \<and>
     distinct (concat clusters) \<and> set (concat clusters) = {j. j < length lidarPts} \<and>
     [] \<notin> set clusters \<and>
     removeLidarOutlier lidarPts tol = Inr res \<and>
     removeLidarOutlier_select lidarPts clusters [] = Inr res"
proof -
  let ?points = "map lidar_xyz lidarPts"
  let ?tree = "zip ?points [0 ..< length lidarPts]"
  have "tree_ids_below ?tree (length ?points)" using tree_ids_below_zip[of ?points "length lidarPts"] by simp
  from euclideanCluster_concat[OF this, of tol] obtain cs where
    cs: "euclideanCluster ?points ?tree tol = Inr cs" "distinct (concat cs)"
      "set (concat cs) = {j. j < length lidarPts}" "[] \<notin> set cs" by auto
  from cs(3) have "\<forall>c \<in> set cs. \<forall>i \<in> set c. i < length lidarPts" by auto
  from removeLidarOutlier_select_spec[OF this, of "[]"] obtain res where
    "removeLidarOutlier_select lidarPts cs [] = Inr res" by blast
  with cs show ?thesis
    by (simp add: removeLidarOutlier_def removeLidarOutlier_insert_eq)
qed

text \<open>A small cloud for the examples: two points 5 cm apart and one far away.\<close>

definition example_cloud :: "LidarPoint list" where
  "example_cloud =
     [\<lparr>lidar_x = 8, lidar_y = 0, lidar_z = 0, lidar_r = 1/2\<rparr>,
      \<lparr>lidar_x = 5, lidar_y = 3, lidar_z = 0, lidar_r = 1/4\<rparr>,
      \<lparr>lidar_x = 161/20, lidar_y = 0, lidar_z = 0, lidar_r = 3/4\<rparr>]"

lemma example_cloud_cleaned:
  "removeLidarOutlier example_cloud (1/10) =
     Inr [\<lparr>lidar_x = 8, lidar_y = 0, lidar_z = 0, lidar_r = 1/2\<rparr>,
          \<lparr>lidar_x = 161/20, lidar_y = 0, lidar_z = 0, lidar_r = 3/4\<rparr>]"
  by (simp add: removeLidarOutlier_def example_cloud_def Let_def kd_insert_def
      euclideanCluster_def kd_search_def within_radius_iff power2_eq_square)

section \<open>Clustering and outlier rejection: the claims\<close>



text \<open>
  Claim C7. For every lidar point list and tolerance, \<open>removeLidarOutlier\<close> returns the
  points of the cluster with the greatest point count among the clusters that
  \<open>euclideanCluster\<close> produced for the list; among clusters of the greatest size the
  first in clustering order wins; the returned points are points of the input list, each
  taken whole (coordinates and reflectivity) and no more often than it occurs there; and
  an empty input gives an empty result.
\<close>

theorem removeLidarOutlier_largest_cluster:
  "\<exists>points tree clusters res.
     removeLidarOutlier_insert lidarPts 0 [] [] = Inr (points, tree) \<and>
     euclideanCluster points tree clusterTolerance = Inr clusters \<and>
     removeLidarOutlier lidarPts clusterTolerance = Inr res \<and>
     (if clusters = [] then res = []
      else \<exists>k < length clusters.
             res = map (\<lambda>index. lidarPts ! index) (clusters ! k) \<and>
             (\<forall>j < length clusters. length (clusters ! j) \<le> length (clusters ! k)) \<and>
             (\<forall>j < k. length (clusters ! j) < length (clusters ! k))) \<and>
     set res \<subseteq> set lidarPts \<and> mset res \<subseteq># mset lidarPts \<and>
     (lidarPts = [] \<longrightarrow> res = [])"
proof -
  let ?points = "map lidar_xyz lidarPts"
  let ?tree = "zip ?points [0 ..< length lidarPts]"
  from removeLidarOutlier_total[of lidarPts clusterTolerance] obtain cs res where
    cs: "euclideanCluster ?points ?tree clusterTolerance = Inr cs"
    and d: "distinct (concat cs)" and s: "set (concat cs) = {j. j < length lidarPts}"
    and ne: "[] \<notin> set cs"
    and res: "removeLidarOutlier lidarPts clusterTolerance = Inr res"
    and sel: "removeLidarOutlier_select lidarPts cs [] = Inr res" by blast
  from s have inr: "\<forall>c \<in> set cs. \<forall>i \<in> set c. i < length lidarPts" by auto
  from removeLidarOutlier_select_spec[OF inr, of "[]"] sel
  have alt: "(\<forall>c \<in> set cs. length c \<le> length ([]::LidarPoint list)) \<and> res = [] \<or>
      (\<exists>k < length cs. res = map (\<lambda>index. lidarPts ! index) (cs ! k) \<and>
          length ([]::LidarPoint list) < length (cs ! k) \<and>
          (\<forall>j < length cs. length (cs ! j) \<le> length (cs ! k)) \<and>
          (\<forall>j < k. length (cs ! j) < length (cs ! k)))" by simp
  have choice: "if cs = [] then res = []
      else \<exists>k < length cs. res = map (\<lambda>index. lidarPts ! index) (cs ! k) \<and>
             (\<forall>j < length cs. length (cs ! j) \<le> length (cs ! k)) \<and>
             (\<forall>j < k. length (cs ! j) < length (cs ! k))"
  proof (cases "cs = []")
    case True
    with sel show ?thesis by simp
  next
    case False
    then obtain c where c: "c \<in> set cs" by (cases cs) auto
    with ne have "c \<noteq> []" by auto
    with c have "\<not> (\<forall>c \<in> set cs. length c \<le> length ([]::LidarPoint list))" by auto
    with alt False show ?thesis by auto
  qed
  have sub: "mset res \<subseteq># mset lidarPts"
  proof (cases "cs = []")
    case True
    with choice show ?thesis by simp
  next
    case False
    with choice obtain k where k: "k < length cs" "res = map (\<lambda>index. lidarPts ! index) (cs ! k)"
      by auto
    from k(1) have mem: "cs ! k \<in> set cs" by simp
    from d mem have "distinct (cs ! k)" by (simp add: distinct_concat_iff)
    moreover from inr mem have "\<forall>i \<in> set (cs ! k). i < length lidarPts" by blast
    ultimately show ?thesis unfolding k(2) by (rule mset_map_nth_subset)
  qed
  have sub': "set res \<subseteq> set lidarPts" using set_mset_mono[OF sub] by simp
  have emp: "lidarPts = [] \<longrightarrow> res = []" using sub by auto
  from cs res choice sub sub' emp show ?thesis
    by (auto simp: removeLidarOutlier_insert_eq)
qed

theorem removeLidarOutlier_largest_cluster_witness:
  "removeLidarOutlier example_cloud (1/10) = Inr [example_cloud ! 0, example_cloud ! 2] \<and>
   (\<exists>points tree clusters res.
     removeLidarOutlier_insert example_cloud 0 [] [] = Inr (points, tree) \<and>
     euclideanCluster points tree (1/10) = Inr clusters \<and>
     removeLidarOutlier example_cloud (1/10) = Inr res \<and>
     (if clusters = [] then res = []
      else \<exists>k < length clusters.
             res = map (\<lambda>index. example_cloud ! index) (clusters ! k) \<and>
             (\<forall>j < length clusters. length (clusters ! j) \<le> length (clusters ! k)) \<and>
             (\<forall>j < k. length (clusters ! j) < length (clusters ! k))) \<and>
     set res \<subseteq> set example_cloud \<and> mset res \<subseteq># mset example_cloud \<and>
     (example_cloud = [] \<longrightarrow> res = []))"
proof -
  have "removeLidarOutlier example_cloud (1/10) = Inr [example_cloud ! 0, example_cloud ! 2]"
    by (simp add: example_cloud_cleaned) (simp add: example_cloud_def)
  with removeLidarOutlier_largest_cluster[of example_cloud "1/10"] show ?thesis by blast
qed

section \<open>computeTTCLidar\<close>

text \<open>
  The two \<open>for\<close> loops of \<open>computeTTCLidar\<close> are one function, run on the previous and
  on the current cluster: \<open>minX\<close> starts at \<open>1e9\<close> and is lowered by every point with
  \<open>abs(it.y) <= laneWidth / 2.0\<close> whose \<open>x\<close> is smaller.
\<close>

fun computeTTCLidar_minX :: "real \<Rightarrow> LidarPoint list \<Rightarrow> real \<Rightarrow> real" where
  "computeTTCLidar_minX laneWidth [] minX = minX"
| "computeTTCLidar_minX laneWidth (it # rest) minX =
     computeTTCLidar_minX laneWidth rest
       (if \<bar>lidar_y it\<bar> \<le> laneWidth / 2 then (if lidar_x it < minX then lidar_x it else minX)
        else minX)"

definition computeTTCLidar :: "LidarPoint list \<Rightarrow> LidarPoint list \<Rightarrow> real \<Rightarrow> error + dbl" where
  "computeTTCLidar lidarPointsPrev lidarPointsCurr frameRate =
     (let dT = ddiv (Fin 1) (Fin frameRate);
          laneWidth = 4;
          clusterTolerance = 1 / 10
      in case removeLidarOutlier lidarPointsPrev clusterTolerance of
           Inl e \<Rightarrow> Inl e
         | Inr lidarPointsPrevClustered \<Rightarrow>
             (case removeLidarOutlier lidarPointsCurr clusterTolerance of
                Inl e \<Rightarrow> Inl e
              | Inr lidarPointsCurrClustered \<Rightarrow>
                  (let minXPrev = computeTTCLidar_minX laneWidth lidarPointsPrevClustered 1000000000;
                       minXCurr = computeTTCLidar_minX laneWidth lidarPointsCurrClustered 1000000000
                   in Inr (ddiv (dmul (Fin minXCurr) dT) (Fin (minXPrev - minXCurr))))))"

text \<open>
  The points in the ego lane, the minimum as the spec words it (the sentinel only when no
  point qualifies), and the minimum as the loop computes it (never above the sentinel).
\<close>

definition in_lane :: "LidarPoint list \<Rightarrow> LidarPoint list" where
  "in_lane pts = filter (\<lambda>p. \<bar>lidar_y p\<bar> \<le> 2) pts"

definition minX_spec :: "LidarPoint list \<Rightarrow> real" where
  "minX_spec pts = (if in_lane pts = [] then 1000000000 else Min (set (map lidar_x (in_lane pts))))"

definition minX_capped :: "LidarPoint list \<Rightarrow> real" where
  "minX_capped pts = Min (set (1000000000 # map lidar_x (in_lane pts)))"

lemma computeTTCLidar_minX_fold:
  "computeTTCLidar_minX 4 pts m = fold min (map lidar_x (in_lane pts)) m"
  by (induction pts arbitrary: m) (auto simp: in_lane_def min_def)

lemma computeTTCLidar_minX_eq:
  "computeTTCLidar_minX 4 pts m = Min (set (m # map lidar_x (in_lane pts)))"
  by (simp only: computeTTCLidar_minX_fold Min.set_eq_fold)

lemma computeTTCLidar_eq:
  assumes "0 < frameRate"
  shows "\<exists>prevClustered currClustered.
     removeLidarOutlier lidarPointsPrev (1 / 10) = Inr prevClustered \<and>
     removeLidarOutlier lidarPointsCurr (1 / 10) = Inr currClustered \<and>
     computeTTCLidar lidarPointsPrev lidarPointsCurr frameRate =
       Inr (ddiv (Fin (minX_capped currClustered * (1 / frameRate)))
                 (Fin (minX_capped prevClustered - minX_capped currClustered)))"
proof -
  from removeLidarOutlier_total[of lidarPointsPrev "1/10"] obtain pc where
    pc: "removeLidarOutlier lidarPointsPrev (1 / 10) = Inr pc" by blast
  from removeLidarOutlier_total[of lidarPointsCurr "1/10"] obtain cc where
    cc: "removeLidarOutlier lidarPointsCurr (1 / 10) = Inr cc" by blast
  from assms have dT: "ddiv (Fin 1) (Fin frameRate) = Fin (1 / frameRate)" by simp
  show ?thesis
    using pc cc dT
    by (simp add: computeTTCLidar_def Let_def computeTTCLidar_minX_eq minX_capped_def
        del: ddiv.simps)
qed


lemma minX_capped_spec:
  assumes "\<forall>p \<in> set pts. lidar_x p \<le> 1000000000"
  shows "minX_capped pts = minX_spec pts"
proof (cases "in_lane pts = []")
  case True
  then show ?thesis by (simp add: minX_capped_def minX_spec_def)
next
  case False
  let ?S = "set (map lidar_x (in_lane pts))"
  from False have ne: "?S \<noteq> {}" by simp
  have "\<forall>v \<in> ?S. v \<le> 1000000000" using assms by (auto simp: in_lane_def)
  then have le: "Min ?S \<le> 1000000000" using ne by (meson List.finite_set Min_in)
  have "Min (set (1000000000 # map lidar_x (in_lane pts))) = min 1000000000 (Min ?S)"
    using ne by simp
  also have "\<dots> = Min ?S" using le by (rule min_absorb2)
  finally show ?thesis using False by (simp only: minX_capped_def minX_spec_def if_False)
qed

lemma minX_capped_fold: "minX_capped pts = fold min (map lidar_x (in_lane pts)) 1000000000"
  by (simp only: minX_capped_def Min.set_eq_fold)

text \<open>
  Claim C1, as amended. For every pair of lidar point lists and every positive
  \<open>frameRate\<close>, \<open>computeTTCLidar\<close> applies \<open>removeLidarOutlier\<close> with tolerance 0.1 to each
  list (both calls return), takes \<open>minXPrev\<close> and \<open>minXCurr\<close> as the minimum of \<open>1e9\<close> and
  the \<open>x\<close> of the cleaned points with \<open>|y| \<le> 2.0\<close>, and returns
  \<open>minXCurr * (1 / frameRate) / (minXPrev - minXCurr)\<close>, the division being the IEEE one
  when the two minima are equal; \<open>minXPrev = 10\<close>, \<open>minXCurr = 8\<close>, \<open>frameRate = 10\<close> give
  0.4. When no cleaned point has \<open>x\<close> above \<open>1e9\<close> the minima are those of the claim as
  written: the least qualifying \<open>x\<close>, or \<open>1e9\<close> when no point qualifies.
\<close>

theorem computeTTCLidar_formula:
  assumes "0 < frameRate"
  shows "\<exists>prevClustered currClustered.
     removeLidarOutlier lidarPointsPrev (1 / 10) = Inr prevClustered \<and>
     removeLidarOutlier lidarPointsCurr (1 / 10) = Inr currClustered \<and>
     computeTTCLidar lidarPointsPrev lidarPointsCurr frameRate =
       Inr (ddiv (Fin (minX_capped currClustered * (1 / frameRate)))
                 (Fin (minX_capped prevClustered - minX_capped currClustered))) \<and>
     (minX_capped prevClustered = 10 \<and> minX_capped currClustered = 8 \<and> frameRate = 10 \<longrightarrow>
        computeTTCLidar lidarPointsPrev lidarPointsCurr frameRate = Inr (Fin (4 / 10))) \<and>
     ((\<forall>p \<in> set prevClustered \<union> set currClustered. lidar_x p \<le> 1000000000) \<longrightarrow>
        minX_capped prevClustered = minX_spec prevClustered \<and>
        minX_capped currClustered = minX_spec currClustered)"
proof -
  from computeTTCLidar_eq[OF assms, of lidarPointsPrev lidarPointsCurr] obtain pc cc where
    pc: "removeLidarOutlier lidarPointsPrev (1 / 10) = Inr pc"
    and cc: "removeLidarOutlier lidarPointsCurr (1 / 10) = Inr cc"
    and ttc: "computeTTCLidar lidarPointsPrev lidarPointsCurr frameRate =
       Inr (ddiv (Fin (minX_capped cc * (1 / frameRate))) (Fin (minX_capped pc - minX_capped cc)))"
    by blast
  have ex: "minX_capped pc = 10 \<and> minX_capped cc = 8 \<and> frameRate = 10 \<longrightarrow>
        computeTTCLidar lidarPointsPrev lidarPointsCurr frameRate = Inr (Fin (4 / 10))"
  proof (intro impI, elim conjE)
    assume "minX_capped pc = 10" "minX_capped cc = 8" "frameRate = 10"
    with ttc show "computeTTCLidar lidarPointsPrev lidarPointsCurr frameRate = Inr (Fin (4 / 10))"
      by simp
  qed
  have sp: "(\<forall>p \<in> set pc \<union> set cc. lidar_x p \<le> 1000000000) \<longrightarrow>
        minX_capped pc = minX_spec pc \<and> minX_capped cc = minX_spec cc"
    using minX_capped_spec[of pc] minX_capped_spec[of cc] by blast
  from pc cc ttc ex sp show ?thesis by blast
qed

text \<open>Example clouds of one point each.\<close>

definition example_prev :: "LidarPoint list" where
  "example_prev = [\<lparr>lidar_x = 10, lidar_y = 1, lidar_z = 0, lidar_r = 1/2\<rparr>]"

definition example_far :: "LidarPoint list" where
  "example_far = [\<lparr>lidar_x = 2000000000, lidar_y = 0, lidar_z = 0, lidar_r = 1/2\<rparr>]"

definition example_near :: "LidarPoint list" where
  "example_near = [\<lparr>lidar_x = 8, lidar_y = 0, lidar_z = 0, lidar_r = 1/2\<rparr>]"

lemma removeLidarOutlier_single: "removeLidarOutlier [p] (1 / 10) = Inr [p]"
  by (cases "lidar_xyz p")
     (simp add: removeLidarOutlier_def removeLidarOutlier_insert_eq euclideanCluster_def
        kd_search_def within_radius_iff)

theorem computeTTCLidar_formula_witness:
  "(0::real) < 10 \<and> computeTTCLidar example_prev example_cloud 10 = Inr (Fin (4 / 10))"
proof -
  have h: "(0::real) < 10" by simp
  from computeTTCLidar_formula[OF h, of example_prev example_cloud] obtain pc cc where
    pc: "removeLidarOutlier example_prev (1 / 10) = Inr pc"
    and cc: "removeLidarOutlier example_cloud (1 / 10) = Inr cc"
    and ex: "minX_capped pc = 10 \<and> minX_capped cc = 8 \<and> (10::real) = 10 \<longrightarrow>
        computeTTCLidar example_prev example_cloud 10 = Inr (Fin (4 / 10))"
    by blast
  from pc have "pc = example_prev" by (simp add: example_prev_def removeLidarOutlier_single)
  then have 1: "minX_capped pc = 10" by (simp add: minX_capped_fold in_lane_def example_prev_def)
  from cc have 2: "minX_capped cc = 8"
    by (auto simp: example_cloud_cleaned minX_capped_fold in_lane_def)
  from h ex 1 2 show ?thesis by simp
qed

text \<open>
  Claim C1 as written fails for a qualifying point beyond the sentinel: with the single
  previous point at \<open>x = 2e9\<close> the loop keeps \<open>minXPrev = 1e9\<close>, not the least
  qualifying \<open>x\<close>.
\<close>

theorem computeTTCLidar_sentinel_counterexample:
  "removeLidarOutlier example_far (1 / 10) = Inr example_far \<and>
   removeLidarOutlier example_near (1 / 10) = Inr example_near \<and>
   minX_spec example_far = 2000000000 \<and> minX_spec example_near = 8 \<and>
   computeTTCLidar example_far example_near 10 = Inr (Fin (8 * (1 / 10) / (1000000000 - 8))) \<and>
   computeTTCLidar example_far example_near 10 \<noteq>
     Inr (ddiv (Fin (minX_spec example_near * (1 / 10)))
               (Fin (minX_spec example_far - minX_spec example_near)))"
proof -
  have 1: "removeLidarOutlier example_far (1 / 10) = Inr example_far"
    and 2: "removeLidarOutlier example_near (1 / 10) = Inr example_near"
    by (simp_all add: example_far_def example_near_def removeLidarOutlier_single)
  have 3: "minX_spec example_far = 2000000000" and 4: "minX_spec example_near = 8"
    by (simp_all add: minX_spec_def in_lane_def example_far_def example_near_def)
  have 5: "computeTTCLidar example_far example_near 10 = Inr (Fin (8 * (1 / 10) / (1000000000 - 8)))"
    by (simp add: computeTTCLidar_def 1 2 Let_def) (simp add: example_far_def example_near_def)
  from 1 2 3 4 5 show ?thesis by simp
qed

section \<open>computeTTCCamera\<close>

text \<open>
  The OpenCV types the function reads: \<open>cv::Point2f\<close>, \<open>cv::KeyPoint\<close> (only \<open>pt\<close> is
  read), \<open>cv::DMatch\<close> (only the two indices are read), point subtraction and
  \<open>cv::norm\<close>. \<open>vec_at\<close> is \<open>std::vector::at\<close>, which throws \<open>std::out_of_range\<close>.
\<close>

type_synonym Point2f = "real \<times> real"

record KeyPoint =
  pt :: Point2f

record DMatch =
  queryIdx :: nat
  trainIdx :: nat

fun sub2f :: "Point2f \<Rightarrow> Point2f \<Rightarrow> Point2f" where
  "sub2f (a, b) (c, d) = (a - c, b - d)"

fun norm2f :: "Point2f \<Rightarrow> real" where
  "norm2f (a, b) = sqrt (a * a + b * b)"

definition vec_at :: "'a list \<Rightarrow> nat \<Rightarrow> error + 'a" where
  "vec_at v n = (if n < length v then Inr (v ! n) else Inl OutOfRange)"

text \<open>\<open>std::numeric_limits<double>::epsilon()\<close>.\<close>

definition epsilon :: real where
  "epsilon = 1 / 2 ^ 52"

text \<open>
  The two nested loops. An iterator range is the list of elements it visits: \<open>it1\<close> runs
  over \<open>[begin, end - 1)\<close>, that is \<open>butlast\<close>, and \<open>it2\<close> over \<open>[begin + 1, end)\<close>, that is
  \<open>tl\<close>, for every \<open>it1\<close>. On an empty vector \<open>end() - 1\<close> lies before \<open>begin()\<close> and the
  first \<open>it1\<close> is dereferenced at \<open>end()\<close>: undefined behaviour.
\<close>

fun computeTTCCamera_inner ::
  "KeyPoint \<Rightarrow> KeyPoint \<Rightarrow> DMatch list \<Rightarrow> KeyPoint list \<Rightarrow> KeyPoint list \<Rightarrow> real list
     \<Rightarrow> error + real list"
where
  "computeTTCCamera_inner kpOuterCurr kpOuterPrev [] kptsPrev kptsCurr distRatios = Inr distRatios"
| "computeTTCCamera_inner kpOuterCurr kpOuterPrev (it2 # rest) kptsPrev kptsCurr distRatios =
     (let minDist = 100 in
      case vec_at kptsCurr (trainIdx it2) of
        Inl e \<Rightarrow> Inl e
      | Inr kpInnerCurr \<Rightarrow>
          (case vec_at kptsPrev (queryIdx it2) of
             Inl e \<Rightarrow> Inl e
           | Inr kpInnerPrev \<Rightarrow>
               (let distCurr = norm2f (sub2f (pt kpOuterCurr) (pt kpInnerCurr));
                    distPrev = norm2f (sub2f (pt kpOuterPrev) (pt kpInnerPrev))
                in computeTTCCamera_inner kpOuterCurr kpOuterPrev rest kptsPrev kptsCurr
                     (if distPrev > epsilon \<and> distCurr \<ge> minDist
                      then distRatios @ [distCurr / distPrev] else distRatios))))"

fun computeTTCCamera_outer ::
  "DMatch list \<Rightarrow> DMatch list \<Rightarrow> KeyPoint list \<Rightarrow> KeyPoint list \<Rightarrow> real list \<Rightarrow> error + real list"
where
  "computeTTCCamera_outer [] matches kptsPrev kptsCurr distRatios = Inr distRatios"
| "computeTTCCamera_outer (it1 # rest) matches kptsPrev kptsCurr distRatios =
     (case vec_at kptsCurr (trainIdx it1) of
        Inl e \<Rightarrow> Inl e
      | Inr kpOuterCurr \<Rightarrow>
          (case vec_at kptsPrev (queryIdx it1) of
             Inl e \<Rightarrow> Inl e
           | Inr kpOuterPrev \<Rightarrow>
               (case computeTTCCamera_inner kpOuterCurr kpOuterPrev (tl matches) kptsPrev kptsCurr
                       distRatios of
                  Inl e \<Rightarrow> Inl e
                | Inr distRatios' \<Rightarrow>
                    computeTTCCamera_outer rest matches kptsPrev kptsCurr distRatios')))"

definition computeTTCCamera_distRatios ::
  "KeyPoint list \<Rightarrow> KeyPoint list \<Rightarrow> DMatch list \<Rightarrow> error + real list"
where
  "computeTTCCamera_distRatios kptsPrev kptsCurr matches =
     (if matches = [] then Inl UndefinedBehaviour
      else computeTTCCamera_outer (butlast matches) matches kptsPrev kptsCurr [])"

text \<open>
  The rest of the function, from \<open>distRatios.empty()\<close> on. \<open>floor(size / 2.0)\<close> is
  \<open>size div 2\<close>; the two reads of \<open>distRatios\<close> are in range (\<open>median_indices_in_range\<close>).
\<close>

definition computeTTCCamera_ttc :: "real list \<Rightarrow> real \<Rightarrow> dbl" where
  "computeTTCCamera_ttc distRatios frameRate =
     (if distRatios = [] then NaN
      else
        (let sorted_ratios = sort distRatios;
             medIndex = length sorted_ratios div 2;
             medDistRatio =
               (if length sorted_ratios mod 2 = 0
                then (sorted_ratios ! (medIndex - 1) + sorted_ratios ! medIndex) / 2
                else sorted_ratios ! medIndex);
             dT = ddiv (Fin 1) (Fin frameRate)
         in ddiv (dneg dT) (Fin (1 - medDistRatio))))"

definition computeTTCCamera ::
  "KeyPoint list \<Rightarrow> KeyPoint list \<Rightarrow> DMatch list \<Rightarrow> real \<Rightarrow> error + dbl"
where
  "computeTTCCamera kptsPrev kptsCurr matches frameRate =
     (case computeTTCCamera_distRatios kptsPrev kptsCurr matches of
        Inl e \<Rightarrow> Inl e
      | Inr distRatios \<Rightarrow> Inr (computeTTCCamera_ttc distRatios frameRate))"

text \<open>
  The median as the spec words it: the average of the two central values of the sorted
  list for an even count, the single central value for an odd count.
\<close>

definition median_spec :: "real list \<Rightarrow> real" where
  "median_spec ratios =
     (let s = sort ratios; n = length s
      in if even n then (s ! (n div 2 - 1) + s ! (n div 2)) / 2 else s ! (n div 2))"

lemma ddiv_dneg_not_NaN: "ddiv (dneg (ddiv (Fin 1) (Fin f))) (Fin b) \<noteq> NaN"
  by (cases "f = 0"; cases "b = 0") auto

text \<open>
  Claim C2. On the list of accepted distance ratios, \<open>computeTTCCamera\<close> outputs NaN
  exactly when the list is empty; otherwise it sorts the list, takes the median (the
  average of the two central values for an even count, the central value for an odd
  count) and outputs \<open>-(1 / frameRate) / (1 - medianRatio)\<close>, an IEEE division: a finite
  value when \<open>frameRate\<close> is not zero and the median is not 1. The ratios
  \<open>[0.9, 0.95, 1.0, 1.05]\<close> with \<open>frameRate = 10\<close> give \<open>-4\<close>, the sign kept.
\<close>

theorem computeTTCCamera_ttc_median:
  "(computeTTCCamera_ttc distRatios frameRate = NaN \<longleftrightarrow> distRatios = []) \<and>
   (distRatios \<noteq> [] \<longrightarrow>
      computeTTCCamera_ttc distRatios frameRate =
        ddiv (dneg (ddiv (Fin 1) (Fin frameRate))) (Fin (1 - median_spec distRatios))) \<and>
   (distRatios \<noteq> [] \<and> frameRate \<noteq> 0 \<and> median_spec distRatios \<noteq> 1 \<longrightarrow>
      computeTTCCamera_ttc distRatios frameRate =
        Fin (- (1 / frameRate) / (1 - median_spec distRatios))) \<and>
   computeTTCCamera_ttc [9/10, 95/100, 1, 105/100] 10 = Fin (- 4)"
proof -
  have eq: "computeTTCCamera_ttc distRatios frameRate =
        ddiv (dneg (ddiv (Fin 1) (Fin frameRate))) (Fin (1 - median_spec distRatios))"
    if "distRatios \<noteq> []"
    using that by (simp add: computeTTCCamera_ttc_def median_spec_def Let_def even_iff_mod_2_eq_zero
        del: ddiv.simps dneg.simps)
  have nan: "computeTTCCamera_ttc distRatios frameRate = NaN \<longleftrightarrow> distRatios = []"
  proof (cases "distRatios = []")
    case True
    then show ?thesis by (simp add: computeTTCCamera_ttc_def)
  next
    case False
    with eq ddiv_dneg_not_NaN[of frameRate "1 - median_spec distRatios"] show ?thesis by simp
  qed
  have fin: "computeTTCCamera_ttc distRatios frameRate =
        Fin (- (1 / frameRate) / (1 - median_spec distRatios))"
    if "distRatios \<noteq> []" "frameRate \<noteq> 0" "median_spec distRatios \<noteq> 1"
    using that eq by simp
  have ex: "computeTTCCamera_ttc [9/10, 95/100, 1, 105/100] 10 = Fin (- 4)"
    by (simp add: computeTTCCamera_ttc_def Let_def)
  from eq nan fin ex show ?thesis by blast
qed

theorem computeTTCCamera_ttc_median_witness:
  "computeTTCCamera_ttc [105/100, 9/10, 1, 95/100] 10 = Fin (- 4) \<and>
   median_spec [105/100, 9/10, 1, 95/100] = 975/1000 \<and>
   computeTTCCamera_ttc [] 10 = NaN \<and>
   computeTTCCamera_ttc [1] 10 = MInf"
proof -
  have m: "median_spec [105/100, 9/10, 1, 95/100] = 975/1000"
    by (simp add: median_spec_def Let_def)
  have m1: "median_spec [1] = 1" by (simp add: median_spec_def)
  let ?L = "[105/100, 9/10, 1, 95/100] :: real list"
  from computeTTCCamera_ttc_median[of ?L 10]
  have imp: "?L \<noteq> [] \<and> (10::real) \<noteq> 0 \<and> median_spec ?L \<noteq> 1 \<longrightarrow>
      computeTTCCamera_ttc ?L 10 = Fin (- (1 / 10) / (1 - median_spec ?L))" by blast
  have pre: "?L \<noteq> [] \<and> (10::real) \<noteq> 0 \<and> median_spec ?L \<noteq> 1" unfolding m by simp
  from imp pre have "computeTTCCamera_ttc ?L 10 = Fin (- (1 / 10) / (1 - median_spec ?L))"
    by blast
  then have 1: "computeTTCCamera_ttc ?L 10 = Fin (- 4)" unfolding m by simp
  from computeTTCCamera_ttc_median[of "[]" 10] have 2: "computeTTCCamera_ttc [] 10 = NaN" by simp
  from computeTTCCamera_ttc_median[of "[1]" 10] m1 have 3: "computeTTCCamera_ttc [1] 10 = MInf"
    by simp
  from 1 2 3 m show ?thesis by simp
qed


lemma median_indices_in_range:
  assumes "ratios \<noteq> []"
  shows "length (sort ratios) div 2 < length (sort ratios)"
    and "length (sort ratios) mod 2 = 0 \<Longrightarrow> length (sort ratios) div 2 - 1 < length (sort ratios)"
  using assms by (cases ratios; simp)+

subsection \<open>The pairs of correspondences\<close>

text \<open>
  What the spec asks of the first half of the function: the ratio of one pair of
  correspondences, when accepted, and the multiset of the accepted ratios over every
  unordered pair of distinct correspondences, each pair once.
\<close>

definition pair_ratio :: "KeyPoint list \<Rightarrow> KeyPoint list \<Rightarrow> DMatch \<Rightarrow> DMatch \<Rightarrow> real option" where
  "pair_ratio kptsPrev kptsCurr m1 m2 =
     (let distCurr = norm2f (sub2f (pt (kptsCurr ! trainIdx m1)) (pt (kptsCurr ! trainIdx m2)));
          distPrev = norm2f (sub2f (pt (kptsPrev ! queryIdx m1)) (pt (kptsPrev ! queryIdx m2)))
      in if distPrev > epsilon \<and> distCurr \<ge> 100 then Some (distCurr / distPrev) else None)"

definition unordered_pairs :: "nat \<Rightarrow> (nat \<times> nat) list" where
  "unordered_pairs n = concat (map (\<lambda>i. map (\<lambda>j. (i, j)) [Suc i ..< n]) [0 ..< n])"

definition unordered_pair_ratios :: "KeyPoint list \<Rightarrow> KeyPoint list \<Rightarrow> DMatch list \<Rightarrow> real multiset" where
  "unordered_pair_ratios kptsPrev kptsCurr matches =
     mset (List.map_filter (\<lambda>(i, j). pair_ratio kptsPrev kptsCurr (matches ! i) (matches ! j))
             (unordered_pairs (length matches)))"

text \<open>
  What the loops compute when the indices are in range: for every correspondence but the
  last, in order, the accepted ratios with every correspondence but the first.
\<close>

lemma computeTTCCamera_inner_eq:
  assumes "\<forall>m \<in> set ms. trainIdx m < length kptsCurr \<and> queryIdx m < length kptsPrev"
  shows "computeTTCCamera_inner (kptsCurr ! trainIdx m1) (kptsPrev ! queryIdx m1) ms kptsPrev kptsCurr
           distRatios
         = Inr (distRatios @ List.map_filter (pair_ratio kptsPrev kptsCurr m1) ms)"
  using assms
proof (induction ms arbitrary: distRatios)
  case Nil
  then show ?case by (simp add: List.map_filter_simps)
next
  case (Cons m2 ms)
  then show ?case
    by (simp add: vec_at_def pair_ratio_def Let_def List.map_filter_simps)
qed

lemma computeTTCCamera_outer_eq:
  assumes "\<forall>m \<in> set os \<union> set matches. trainIdx m < length kptsCurr \<and> queryIdx m < length kptsPrev"
  shows "computeTTCCamera_outer os matches kptsPrev kptsCurr distRatios
         = Inr (distRatios @
                concat (map (\<lambda>m1. List.map_filter (pair_ratio kptsPrev kptsCurr m1) (tl matches)) os))"
  using assms
proof (induction os arbitrary: distRatios)
  case Nil
  then show ?case by simp
next
  case (Cons m1 os)
  have tl: "\<forall>m \<in> set (tl matches). trainIdx m < length kptsCurr \<and> queryIdx m < length kptsPrev"
  proof
    fix m assume "m \<in> set (tl matches)"
    then have "m \<in> set matches" by (cases matches) auto
    with Cons.prems show "trainIdx m < length kptsCurr \<and> queryIdx m < length kptsPrev" by blast
  qed
  from Cons.prems have m1: "trainIdx m1 < length kptsCurr" "queryIdx m1 < length kptsPrev"
    by simp_all
  from Cons.prems have rest: "\<forall>m \<in> set os \<union> set matches.
      trainIdx m < length kptsCurr \<and> queryIdx m < length kptsPrev" by simp
  show ?case
    using m1 computeTTCCamera_inner_eq[OF tl, of m1] Cons.IH[OF rest]
    by (simp add: vec_at_def)
qed

lemma computeTTCCamera_distRatios_eq:
  assumes "matches \<noteq> []"
    and "\<forall>m \<in> set matches. trainIdx m < length kptsCurr \<and> queryIdx m < length kptsPrev"
  shows "computeTTCCamera_distRatios kptsPrev kptsCurr matches
         = Inr (concat (map (\<lambda>m1. List.map_filter (pair_ratio kptsPrev kptsCurr m1) (tl matches))
                          (butlast matches)))"
proof -
  have "\<forall>m \<in> set (butlast matches) \<union> set matches.
      trainIdx m < length kptsCurr \<and> queryIdx m < length kptsPrev"
    using assms(2) by (auto dest: in_set_butlastD)
  from computeTTCCamera_outer_eq[OF this, of "[]"] assms(1) show ?thesis
    by (simp add: computeTTCCamera_distRatios_def)
qed

text \<open>Four correspondences between keypoints on the image x axis.\<close>

definition kps_on_axis :: "real list \<Rightarrow> KeyPoint list" where
  "kps_on_axis xs = map (\<lambda>a. \<lparr>pt = (a, 0)\<rparr>) xs"

definition four_prev :: "KeyPoint list" where
  "four_prev = kps_on_axis [0, 100, 200, 300]"

definition four_curr :: "KeyPoint list" where
  "four_curr = kps_on_axis [0, 100, 300, 400]"

definition four_matches :: "DMatch list" where
  "four_matches = map (\<lambda>i. \<lparr>queryIdx = i, trainIdx = i\<rparr>) [0, 1, 2, 3]"

lemma norm2f_on_axis: "norm2f (a, 0) = \<bar>a\<bar>"
  by simp

lemma epsilon_small: "epsilon < 100" "epsilon < 200" "epsilon < 300"
  by (simp_all add: epsilon_def)

lemma four_distRatios:
  "computeTTCCamera_distRatios four_prev four_curr four_matches = Inr [1, 3/2, 4/3, 2, 3/2, 2, 1]"
  by (simp add: computeTTCCamera_distRatios_def four_prev_def four_curr_def four_matches_def
      kps_on_axis_def vec_at_def norm2f_on_axis epsilon_small Let_def del: norm2f.simps)

lemma four_unordered:
  "unordered_pair_ratios four_prev four_curr four_matches = mset [1, 3/2, 4/3, 2, 3/2, 1]"
  by (simp add: unordered_pair_ratios_def unordered_pairs_def four_prev_def four_curr_def
      four_matches_def kps_on_axis_def pair_ratio_def norm2f_on_axis epsilon_small Let_def
      List.map_filter_simps upt_rec del: norm2f.simps)

text \<open>
  Claim C3 says that the accepted ratios are those of the unordered pairs of distinct
  correspondences, each pair once. The loops do not do that: \<open>it2\<close> starts at
  \<open>begin() + 1\<close> for every \<open>it1\<close>, not at \<open>it1 + 1\<close>, so a pair of correspondences that
  are both neither first nor last is visited in both orders. With four correspondences
  the pair of the second and third contributes its ratio 2 twice: seven ratios instead of
  six, median 3/2 instead of 17/12, TTC 0.2 instead of 0.24.
\<close>

theorem computeTTCCamera_inner_pairs_twice:
  "computeTTCCamera_distRatios four_prev four_curr four_matches = Inr [1, 3/2, 4/3, 2, 3/2, 2, 1] \<and>
   unordered_pair_ratios four_prev four_curr four_matches = mset [1, 3/2, 4/3, 2, 3/2, 1] \<and>
   mset [1, 3/2, 4/3, 2, 3/2, 2, 1] \<noteq> unordered_pair_ratios four_prev four_curr four_matches \<and>
   computeTTCCamera four_prev four_curr four_matches 10 = Inr (Fin (1/5)) \<and>
   computeTTCCamera_ttc [1, 3/2, 4/3, 2, 3/2, 1] 10 = Fin (6/25)"
proof -
  have "size (mset [1, 3/2, 4/3, 2, 3/2, 2, 1 :: real]) \<noteq> size (mset [1, 3/2, 4/3, 2, 3/2, 1 :: real])"
    by simp
  then have ne: "mset [1, 3/2, 4/3, 2, 3/2, 2, 1 :: real] \<noteq> mset [1, 3/2, 4/3, 2, 3/2, 1]"
    by metis
  have t1: "computeTTCCamera_ttc [1, 3/2, 4/3, 2, 3/2, 2, 1] 10 = Fin (1/5)"
    by (simp add: computeTTCCamera_ttc_def Let_def)
  have t2: "computeTTCCamera_ttc [1, 3/2, 4/3, 2, 3/2, 1] 10 = Fin (6/25)"
    by (simp add: computeTTCCamera_ttc_def Let_def)
  from ne t1 t2 show ?thesis
    by (simp add: four_distRatios four_unordered computeTTCCamera_def del: mset.simps)
qed

section \<open>Rectangles and bounding boxes\<close>

text \<open>
  \<open>cv::Rect\<close> and \<open>cv::Point\<close> have \<open>int\<close> coordinates; \<open>Rect::contains\<close> is the half-open
  test of OpenCV. Where the source passes a \<open>Point2f\<close> keypoint to \<open>roi.contains\<close>, OpenCV
  first converts it to an integer point with \<open>saturate_cast\<close>, which rounds to the nearest
  integer, ties to even (\<open>cvRound\<close>). No theorem below depends on how the conversion
  rounds.
\<close>

record Rect =
  rect_x :: int
  rect_y :: int
  rect_width :: int
  rect_height :: int

type_synonym Point = "int \<times> int"

fun Rect_contains :: "Rect \<Rightarrow> Point \<Rightarrow> bool" where
  "Rect_contains r (px, py) \<longleftrightarrow>
     rect_x r \<le> px \<and> px < rect_x r + rect_width r \<and> rect_y r \<le> py \<and> py < rect_y r + rect_height r"

definition cvRound :: "real \<Rightarrow> int" where
  "cvRound v =
     (let f = \<lfloor>v\<rfloor>; d = v - of_int f
      in if d < 1 / 2 then f else if 1 / 2 < d then f + 1 else if even f then f else f + 1)"

fun Rect_contains2f :: "Rect \<Rightarrow> Point2f \<Rightarrow> bool" where
  "Rect_contains2f r (a, b) = Rect_contains r (cvRound a, cvRound b)"

text \<open>
  \<open>BoundingBox\<close> is declared in a header that is not among the source files; these are the
  members the functions read and write.
\<close>

record BoundingBox =
  boxID :: int
  roi :: Rect
  lidarPoints :: "LidarPoint list"
  kptMatches :: "DMatch list"

text \<open>IEEE \<open>\<le>\<close> on \<open>dbl\<close>: false whenever a NaN is compared.\<close>

fun dle :: "dbl \<Rightarrow> dbl \<Rightarrow> bool" where
  "dle NaN _ = False"
| "dle _ NaN = False"
| "dle (Fin a) (Fin b) = (a \<le> b)"
| "dle MInf _ = True"
| "dle _ PInf = True"
| "dle PInf _ = False"
| "dle (Fin a) MInf = False"

section \<open>clusterKptMatchesWithROI\<close>

text \<open>
  The first loop appends every match whose current keypoint (\<open>kptsCurr[match.trainIdx]\<close>,
  unchecked) lies in the box; the second sums the displacements (\<open>at\<close>, checked).
\<close>

fun clusterKptMatchesWithROI_assign ::
  "BoundingBox \<Rightarrow> KeyPoint list \<Rightarrow> DMatch list \<Rightarrow> error + BoundingBox"
where
  "clusterKptMatchesWithROI_assign boundingBox kptsCurr [] = Inr boundingBox"
| "clusterKptMatchesWithROI_assign boundingBox kptsCurr (match # rest) =
     (if trainIdx match < length kptsCurr then
        (let currKeyPoint = pt (kptsCurr ! trainIdx match)
         in clusterKptMatchesWithROI_assign
              (if Rect_contains2f (roi boundingBox) currKeyPoint
               then boundingBox\<lparr>kptMatches := kptMatches boundingBox @ [match]\<rparr>
               else boundingBox)
              kptsCurr rest)
      else Inl UndefinedBehaviour)"

fun clusterKptMatchesWithROI_sum ::
  "DMatch list \<Rightarrow> KeyPoint list \<Rightarrow> KeyPoint list \<Rightarrow> real \<Rightarrow> error + real"
where
  "clusterKptMatchesWithROI_sum [] kptsPrev kptsCurr dist_sum = Inr dist_sum"
| "clusterKptMatchesWithROI_sum (it # rest) kptsPrev kptsCurr dist_sum =
     (case vec_at kptsCurr (trainIdx it) of
        Inl e \<Rightarrow> Inl e
      | Inr kpCurr \<Rightarrow>
          (case vec_at kptsPrev (queryIdx it) of
             Inl e \<Rightarrow> Inl e
           | Inr kpPrev \<Rightarrow>
               (let dist = norm2f (sub2f (pt kpCurr) (pt kpPrev))
                in clusterKptMatchesWithROI_sum rest kptsPrev kptsCurr (dist_sum + dist))))"

text \<open>
  The third loop erases through the iterator \<open>it\<close> and goes on using it. The C++ standard
  invalidates \<open>it\<close> at the erase; in the implementations of \<open>std::vector\<close> it is a pointer
  into the buffer, the elements behind the erased one move one slot down, and \<open>it\<close> then
  designates the next element. The model follows the implementations: \<open>it\<close> is a position,
  which stays where it is after an erase and advances otherwise. \<open>mean\<close> is a \<open>dbl\<close>
  because \<open>sum / size\<close> is \<open>0.0 / 0\<close> for a box without matches.
\<close>

definition vec_erase :: "'a list \<Rightarrow> nat \<Rightarrow> 'a list" where
  "vec_erase v n = take n v @ drop (Suc n) v"

function clusterKptMatchesWithROI_erase ::
  "nat \<Rightarrow> DMatch list \<Rightarrow> KeyPoint list \<Rightarrow> KeyPoint list \<Rightarrow> dbl \<Rightarrow> error + DMatch list"
where
  "clusterKptMatchesWithROI_erase it ms kptsPrev kptsCurr mean =
     (let ratio = 3 / 2 in
      if it < length ms then
        (case vec_at kptsCurr (trainIdx (ms ! it)) of
           Inl e \<Rightarrow> Inl e
         | Inr kpCurr \<Rightarrow>
             (case vec_at kptsPrev (queryIdx (ms ! it)) of
                Inl e \<Rightarrow> Inl e
              | Inr kpPrev \<Rightarrow>
                  (let dist = norm2f (sub2f (pt kpCurr) (pt kpPrev))
                   in if dle (dmul mean (Fin ratio)) (Fin dist)
                      then clusterKptMatchesWithROI_erase it (vec_erase ms it) kptsPrev kptsCurr mean
                      else clusterKptMatchesWithROI_erase (it + 1) ms kptsPrev kptsCurr mean)))
      else Inr ms)"
  by pat_completeness auto
termination
  by (relation "measure (\<lambda>(it, ms, kptsPrev, kptsCurr, mean). length ms - it)")
     (auto simp: vec_erase_def)

definition clusterKptMatchesWithROI ::
  "BoundingBox \<Rightarrow> KeyPoint list \<Rightarrow> KeyPoint list \<Rightarrow> DMatch list \<Rightarrow> error + BoundingBox"
where
  "clusterKptMatchesWithROI boundingBox kptsPrev kptsCurr matches =
     (case clusterKptMatchesWithROI_assign boundingBox kptsCurr matches of
        Inl e \<Rightarrow> Inl e
      | Inr bb \<Rightarrow>
          (case clusterKptMatchesWithROI_sum (kptMatches bb) kptsPrev kptsCurr 0 of
             Inl e \<Rightarrow> Inl e
           | Inr dist_sum \<Rightarrow>
               (let mean = ddiv (Fin dist_sum) (Fin (real (length (kptMatches bb))))
                in case clusterKptMatchesWithROI_erase 0 (kptMatches bb) kptsPrev kptsCurr mean of
                     Inl e \<Rightarrow> Inl e
                   | Inr ms \<Rightarrow> Inr (bb\<lparr>kptMatches := ms\<rparr>))))"

text \<open>
  The vocabulary of the claim: the displacement of a correspondence, whether its current
  keypoint is in a rectangle, the correspondences assigned by the first loop (after the
  ones the box held already), and their mean displacement.
\<close>

definition displacement :: "KeyPoint list \<Rightarrow> KeyPoint list \<Rightarrow> DMatch \<Rightarrow> real" where
  "displacement kptsPrev kptsCurr m =
     norm2f (sub2f (pt (kptsCurr ! trainIdx m)) (pt (kptsPrev ! queryIdx m)))"

definition in_roi :: "Rect \<Rightarrow> KeyPoint list \<Rightarrow> DMatch \<Rightarrow> bool" where
  "in_roi r kptsCurr m = Rect_contains2f r (pt (kptsCurr ! trainIdx m))"

definition initially_assigned :: "BoundingBox \<Rightarrow> KeyPoint list \<Rightarrow> DMatch list \<Rightarrow> DMatch list" where
  "initially_assigned boundingBox kptsCurr matches =
     kptMatches boundingBox @ filter (in_roi (roi boundingBox) kptsCurr) matches"

definition mean_displacement :: "KeyPoint list \<Rightarrow> KeyPoint list \<Rightarrow> DMatch list \<Rightarrow> real" where
  "mean_displacement kptsPrev kptsCurr ms =
     sum_list (map (displacement kptsPrev kptsCurr) ms) / real (length ms)"

lemma clusterKptMatchesWithROI_assign_eq:
  "\<forall>m \<in> set matches. trainIdx m < length kptsCurr \<Longrightarrow>
   clusterKptMatchesWithROI_assign boundingBox kptsCurr matches =
     Inr (boundingBox\<lparr>kptMatches := initially_assigned boundingBox kptsCurr matches\<rparr>)"
proof (induction matches arbitrary: boundingBox)
  case Nil
  then show ?case by (simp add: initially_assigned_def)
next
  case (Cons m matches)
  then show ?case
    by (simp add: initially_assigned_def in_roi_def Let_def)
qed

lemma clusterKptMatchesWithROI_sum_eq:
  "\<forall>m \<in> set ms. trainIdx m < length kptsCurr \<and> queryIdx m < length kptsPrev \<Longrightarrow>
   clusterKptMatchesWithROI_sum ms kptsPrev kptsCurr s =
     Inr (s + sum_list (map (displacement kptsPrev kptsCurr) ms))"
  by (induction ms arbitrary: s) (simp_all add: vec_at_def displacement_def Let_def)

lemma clusterKptMatchesWithROI_erase_eq:
  "\<forall>m \<in> set ms. trainIdx m < length kptsCurr \<and> queryIdx m < length kptsPrev \<Longrightarrow>
   clusterKptMatchesWithROI_erase it ms kptsPrev kptsCurr mean =
     Inr (take it ms @
          filter (\<lambda>m. \<not> dle (dmul mean (Fin (3 / 2))) (Fin (displacement kptsPrev kptsCurr m)))
            (drop it ms))"
proof (induction it ms kptsPrev kptsCurr mean rule: clusterKptMatchesWithROI_erase.induct)
  case (1 it ms kptsPrev kptsCurr mean)
  let ?keep = "\<lambda>m. \<not> dle (dmul mean (Fin (3 / 2))) (Fin (displacement kptsPrev kptsCurr m))"
  show ?case
  proof (cases "it < length ms")
    case False
    then show ?thesis by simp
  next
    case True
    let ?m = "ms ! it"
    from True "1.prems" have inr: "trainIdx ?m < length kptsCurr" "queryIdx ?m < length kptsPrev"
      by simp_all
    have va: "vec_at kptsCurr (trainIdx ?m) = Inr (kptsCurr ! trainIdx ?m)"
      "vec_at kptsPrev (queryIdx ?m) = Inr (kptsPrev ! queryIdx ?m)"
      using inr by (simp_all add: vec_at_def)
    have dr: "drop it ms = ?m # drop (Suc it) ms" using True by (simp add: Cons_nth_drop_Suc)
    show ?thesis
    proof (cases "?keep ?m")
      case keep: True
      have "clusterKptMatchesWithROI_erase (it + 1) ms kptsPrev kptsCurr mean =
          Inr (take (it + 1) ms @ filter ?keep (drop (it + 1) ms))"
        using "1.IH"(2)[OF refl True va(1) va(2) refl] keep "1.prems"
        by (simp add: displacement_def)
      moreover have "take (it + 1) ms = take it ms @ [?m]"
        using True by (simp add: take_Suc_conv_app_nth)
      ultimately show ?thesis
        using True va keep dr
        by (subst clusterKptMatchesWithROI_erase.simps) (simp add: displacement_def Let_def)
    next
      case drop': False
      have sub: "\<forall>m \<in> set (vec_erase ms it). trainIdx m < length kptsCurr \<and> queryIdx m < length kptsPrev"
        using "1.prems" by (auto simp: vec_erase_def dest: in_set_takeD in_set_dropD)
      have "clusterKptMatchesWithROI_erase it (vec_erase ms it) kptsPrev kptsCurr mean =
          Inr (take it (vec_erase ms it) @ filter ?keep (drop it (vec_erase ms it)))"
        using "1.IH"(1)[OF refl True va(1) va(2) refl] drop' sub
        by (simp add: displacement_def)
      moreover have "take it (vec_erase ms it) = take it ms"
        using True by (simp add: vec_erase_def)
      moreover have "drop it (vec_erase ms it) = drop (Suc it) ms"
        using True by (simp add: vec_erase_def)
      ultimately show ?thesis
        using True va drop' dr
        by (subst clusterKptMatchesWithROI_erase.simps) (simp add: displacement_def Let_def)
    qed
  qed
qed


text \<open>
  Claim C10. For every box and every correspondence list whose indices are in range,
  \<open>clusterKptMatchesWithROI\<close> returns, and the box then holds exactly the initially assigned
  correspondences whose displacement is strictly below 1.5 times the mean displacement of
  all initially assigned ones, in their order and multiplicity: each one at or above the
  threshold is removed and none below it is skipped. For a box that held no
  correspondence before, a correspondence is in the result exactly when it is in the
  list, its current keypoint lies in the box's unshrunk rectangle and its displacement is
  below the threshold. The other members of the box are unchanged.
\<close>

theorem clusterKptMatchesWithROI_filter:
  assumes "\<forall>m \<in> set matches. trainIdx m < length kptsCurr"
    and "\<forall>m \<in> set (initially_assigned boundingBox kptsCurr matches).
           trainIdx m < length kptsCurr \<and> queryIdx m < length kptsPrev"
  shows "\<exists>bb'. clusterKptMatchesWithROI boundingBox kptsPrev kptsCurr matches = Inr bb' \<and>
      kptMatches bb' =
        filter (\<lambda>m. displacement kptsPrev kptsCurr m <
                    3 / 2 * mean_displacement kptsPrev kptsCurr
                              (initially_assigned boundingBox kptsCurr matches))
          (initially_assigned boundingBox kptsCurr matches) \<and>
      roi bb' = roi boundingBox \<and> boxID bb' = boxID boundingBox \<and>
      lidarPoints bb' = lidarPoints boundingBox \<and>
      (kptMatches boundingBox = [] \<longrightarrow>
         (\<forall>m. m \<in> set (kptMatches bb') \<longleftrightarrow>
            m \<in> set matches \<and> in_roi (roi boundingBox) kptsCurr m \<and>
            displacement kptsPrev kptsCurr m <
              3 / 2 * mean_displacement kptsPrev kptsCurr
                        (initially_assigned boundingBox kptsCurr matches)))"
proof -
  let ?init = "initially_assigned boundingBox kptsCurr matches"
  let ?mu = "mean_displacement kptsPrev kptsCurr ?init"
  let ?bb1 = "boundingBox\<lparr>kptMatches := ?init\<rparr>"
  let ?mean = "ddiv (Fin (sum_list (map (displacement kptsPrev kptsCurr) ?init)))
                 (Fin (real (length ?init)))"
  let ?res = "filter (\<lambda>m. displacement kptsPrev kptsCurr m < 3 / 2 * ?mu) ?init"
  have a: "clusterKptMatchesWithROI_assign boundingBox kptsCurr matches = Inr ?bb1"
    by (rule clusterKptMatchesWithROI_assign_eq[OF assms(1)])
  have s: "clusterKptMatchesWithROI_sum ?init kptsPrev kptsCurr 0 =
      Inr (sum_list (map (displacement kptsPrev kptsCurr) ?init))"
    using clusterKptMatchesWithROI_sum_eq[OF assms(2), of 0] by simp
  have e0: "clusterKptMatchesWithROI_erase 0 ?init kptsPrev kptsCurr ?mean =
      Inr (filter (\<lambda>m. \<not> dle (dmul ?mean (Fin (3 / 2))) (Fin (displacement kptsPrev kptsCurr m)))
             ?init)"
    using clusterKptMatchesWithROI_erase_eq[OF assms(2), of 0 ?mean] by simp
  have e: "clusterKptMatchesWithROI_erase 0 ?init kptsPrev kptsCurr ?mean = Inr ?res"
  proof (cases "?init = []")
    case True
    then show ?thesis by (subst clusterKptMatchesWithROI_erase.simps) simp
  next
    case False
    then have "?mean = Fin ?mu" by (simp add: mean_displacement_def)
    then have "(\<lambda>m. \<not> dle (dmul ?mean (Fin (3 / 2))) (Fin (displacement kptsPrev kptsCurr m)))
        = (\<lambda>m. displacement kptsPrev kptsCurr m < 3 / 2 * ?mu)"
      by (auto simp: fun_eq_iff mult.commute)
    with e0 show ?thesis by simp
  qed
  have r: "clusterKptMatchesWithROI boundingBox kptsPrev kptsCurr matches
      = Inr (?bb1\<lparr>kptMatches := ?res\<rparr>)"
    using a s e by (simp add: clusterKptMatchesWithROI_def Let_def del: ddiv.simps)
  have iff: "kptMatches boundingBox = [] \<longrightarrow>
      (\<forall>m. m \<in> set ?res \<longleftrightarrow> m \<in> set matches \<and> in_roi (roi boundingBox) kptsCurr m \<and>
            displacement kptsPrev kptsCurr m < 3 / 2 * ?mu)"
  proof
    assume emp: "kptMatches boundingBox = []"
    then have "set ?init = {m \<in> set matches. in_roi (roi boundingBox) kptsCurr m}"
      by (simp add: initially_assigned_def)
    then show "\<forall>m. m \<in> set ?res \<longleftrightarrow> m \<in> set matches \<and> in_roi (roi boundingBox) kptsCurr m \<and>
            displacement kptsPrev kptsCurr m < 3 / 2 * ?mu"
      by auto
  qed
  show ?thesis
    by (rule exI[of _ "?bb1\<lparr>kptMatches := ?res\<rparr>"]) (use r iff in simp)
qed

text \<open>A box of 100 by 100 pixels and keypoints on the row \<open>y = 50\<close>.\<close>

definition example_box :: BoundingBox where
  "example_box = \<lparr>boxID = 7, roi = \<lparr>rect_x = 0, rect_y = 0, rect_width = 100, rect_height = 100\<rparr>,
     lidarPoints = [], kptMatches = []\<rparr>"

definition kps_on_row :: "real list \<Rightarrow> KeyPoint list" where
  "kps_on_row xs = map (\<lambda>a. \<lparr>pt = (a, 50)\<rparr>) xs"

theorem clusterKptMatchesWithROI_filter_witness:
  "\<exists>bb'. clusterKptMatchesWithROI example_box (kps_on_row [10, 0, 20, 30, 500])
      (kps_on_row [11, 0, 21, 40, 501])
      [\<lparr>queryIdx = 0, trainIdx = 0\<rparr>, \<lparr>queryIdx = 3, trainIdx = 3\<rparr>,
       \<lparr>queryIdx = 2, trainIdx = 2\<rparr>, \<lparr>queryIdx = 4, trainIdx = 4\<rparr>] = Inr bb' \<and>
     kptMatches bb' = [\<lparr>queryIdx = 0, trainIdx = 0\<rparr>, \<lparr>queryIdx = 2, trainIdx = 2\<rparr>]"
proof -
  let ?P = "kps_on_row [10, 0, 20, 30, 500]"
  let ?C = "kps_on_row [11, 0, 21, 40, 501]"
  let ?M = "[\<lparr>queryIdx = 0, trainIdx = 0\<rparr>, \<lparr>queryIdx = 3, trainIdx = 3\<rparr>,
       \<lparr>queryIdx = 2, trainIdx = 2\<rparr>, \<lparr>queryIdx = 4, trainIdx = 4\<rparr>]"
  have init: "initially_assigned example_box ?C ?M =
      [\<lparr>queryIdx = 0, trainIdx = 0\<rparr>, \<lparr>queryIdx = 3, trainIdx = 3\<rparr>, \<lparr>queryIdx = 2, trainIdx = 2\<rparr>]"
    by (simp add: initially_assigned_def in_roi_def example_box_def kps_on_row_def cvRound_def)
  have d: "displacement ?P ?C \<lparr>queryIdx = 0, trainIdx = 0\<rparr> = 1"
    "displacement ?P ?C \<lparr>queryIdx = 3, trainIdx = 3\<rparr> = 10"
    "displacement ?P ?C \<lparr>queryIdx = 2, trainIdx = 2\<rparr> = 1"
    by (simp_all add: displacement_def kps_on_row_def norm2f_on_axis del: norm2f.simps)
  have mu: "mean_displacement ?P ?C (initially_assigned example_box ?C ?M) = 4"
    unfolding init by (simp add: mean_displacement_def d)
  have h1: "\<forall>m \<in> set ?M. trainIdx m < length ?C" by (simp add: kps_on_row_def)
  have h2: "\<forall>m \<in> set (initially_assigned example_box ?C ?M).
      trainIdx m < length ?C \<and> queryIdx m < length ?P"
    unfolding init by (simp add: kps_on_row_def)
  from clusterKptMatchesWithROI_filter[OF h1 h2] obtain bb' where
    r: "clusterKptMatchesWithROI example_box ?P ?C ?M = Inr bb'"
    and k: "kptMatches bb' =
        filter (\<lambda>m. displacement ?P ?C m <
                    3 / 2 * mean_displacement ?P ?C (initially_assigned example_box ?C ?M))
          (initially_assigned example_box ?C ?M)"
    by blast
  from k have "kptMatches bb' = [\<lparr>queryIdx = 0, trainIdx = 0\<rparr>, \<lparr>queryIdx = 2, trainIdx = 2\<rparr>]"
    unfolding mu unfolding init by (simp add: d)
  with r show ?thesis by blast
qed

section \<open>matchBoundingBoxes\<close>

text \<open>
  \<open>DataFrame\<close> is declared in a header that is not among the source files; the function
  reads its keypoints and its bounding boxes.
\<close>

record DataFrame =
  keypoints :: "KeyPoint list"
  boundingBoxes :: "BoundingBox list"

text \<open>
  \<open>std::map<int, int>\<close> is the list of its entries in key order, which is the order
  \<open>begin()\<close> to \<open>end()\<close> iterates in; \<open>map_put\<close> is \<open>m[k] = v\<close>.
\<close>

type_synonym int_map = "(int \<times> int) list"

fun map_put :: "int_map \<Rightarrow> int \<Rightarrow> int \<Rightarrow> int_map" where
  "map_put [] k v = [(k, v)]"
| "map_put ((k', v') # m) k v =
     (if k < k' then (k, v) # (k', v') # m
      else if k = k' then (k, v) # m
      else (k', v') # map_put m k v)"

text \<open>
  \<open>get_max\<close> dereferences \<open>std::max_element\<close>: the first entry, in key order, that no
  other entry exceeds in \<open>second\<close>. On an empty map \<open>max_element\<close> returns \<open>end()\<close>, and
  dereferencing it is undefined.
\<close>

definition max_step :: "int \<times> int \<Rightarrow> int \<times> int \<Rightarrow> int \<times> int" where
  "max_step p2 p1 = (if snd p1 < snd p2 then p2 else p1)"

fun get_max :: "int_map \<Rightarrow> error + int \<times> int" where
  "get_max [] = Inl UndefinedBehaviour"
| "get_max (p # ps) = Inr (fold max_step ps p)"

text \<open>
  The three nested loops, innermost first. \<open>keypoints[...]\<close> is unchecked. The result map
  \<open>bbBestMatches\<close> is only written by key, so it is a partial function.
\<close>

fun matchBoundingBoxes_matches ::
  "BoundingBox \<Rightarrow> BoundingBox \<Rightarrow> DMatch list \<Rightarrow> DataFrame \<Rightarrow> DataFrame \<Rightarrow> int_map
     \<Rightarrow> error + int_map"
where
  "matchBoundingBoxes_matches prevBox currBox [] prevFrame currFrame m = Inr m"
| "matchBoundingBoxes_matches prevBox currBox (match # rest) prevFrame currFrame m =
     (if queryIdx match < length (keypoints prevFrame) then
        (let prevKeyPoint = pt (keypoints prevFrame ! queryIdx match) in
         if Rect_contains2f (roi prevBox) prevKeyPoint then
           (if trainIdx match < length (keypoints currFrame) then
              (let currKeyPoint = pt (keypoints currFrame ! trainIdx match) in
               if Rect_contains2f (roi currBox) currKeyPoint then
                 matchBoundingBoxes_matches prevBox currBox rest prevFrame currFrame
                   (case map_of m (boxID currBox) of
                      None \<Rightarrow> map_put m (boxID currBox) 1
                    | Some c \<Rightarrow> map_put m (boxID currBox) (c + 1))
               else matchBoundingBoxes_matches prevBox currBox rest prevFrame currFrame m)
            else Inl UndefinedBehaviour)
         else matchBoundingBoxes_matches prevBox currBox rest prevFrame currFrame m)
      else Inl UndefinedBehaviour)"

fun matchBoundingBoxes_currBoxes ::
  "BoundingBox \<Rightarrow> BoundingBox list \<Rightarrow> DMatch list \<Rightarrow> DataFrame \<Rightarrow> DataFrame \<Rightarrow> int_map
     \<Rightarrow> error + int_map"
where
  "matchBoundingBoxes_currBoxes prevBox [] matches prevFrame currFrame m = Inr m"
| "matchBoundingBoxes_currBoxes prevBox (currBox # rest) matches prevFrame currFrame m =
     (case matchBoundingBoxes_matches prevBox currBox matches prevFrame currFrame m of
        Inl e \<Rightarrow> Inl e
      | Inr m' \<Rightarrow> matchBoundingBoxes_currBoxes prevBox rest matches prevFrame currFrame m')"

fun matchBoundingBoxes_prevBoxes ::
  "BoundingBox list \<Rightarrow> DMatch list \<Rightarrow> (int \<rightharpoonup> int) \<Rightarrow> DataFrame \<Rightarrow> DataFrame
     \<Rightarrow> error + (int \<rightharpoonup> int)"
where
  "matchBoundingBoxes_prevBoxes [] matches bbBestMatches prevFrame currFrame = Inr bbBestMatches"
| "matchBoundingBoxes_prevBoxes (prevBox # rest) matches bbBestMatches prevFrame currFrame =
     (case matchBoundingBoxes_currBoxes prevBox (boundingBoxes currFrame) matches prevFrame
             currFrame [] of
        Inl e \<Rightarrow> Inl e
      | Inr m \<Rightarrow>
          (case get_max m of
             Inl e \<Rightarrow> Inl e
           | Inr max_pair \<Rightarrow>
               matchBoundingBoxes_prevBoxes rest matches
                 (bbBestMatches(boxID prevBox \<mapsto> fst max_pair)) prevFrame currFrame))"

definition matchBoundingBoxes ::
  "DMatch list \<Rightarrow> (int \<rightharpoonup> int) \<Rightarrow> DataFrame \<Rightarrow> DataFrame \<Rightarrow> error + (int \<rightharpoonup> int)"
where
  "matchBoundingBoxes matches bbBestMatches prevFrame currFrame =
     matchBoundingBoxes_prevBoxes (boundingBoxes prevFrame) matches bbBestMatches prevFrame
       currFrame"

subsection \<open>Votes\<close>

text \<open>
  The vocabulary of the claims: a correspondence casts a vote for a pair of boxes when
  its previous keypoint is in the previous box and its current keypoint in the current
  box; \<open>votes\<close> counts the votes of a previous box for a current box id (the map is keyed
  by \<open>boxID\<close>, so boxes that share an id share the count); \<open>map_ok\<close> is the invariant of the
  map and \<open>cnt\<close> reads a count from it.
\<close>

definition casts_vote :: "DataFrame \<Rightarrow> DataFrame \<Rightarrow> BoundingBox \<Rightarrow> BoundingBox \<Rightarrow> DMatch \<Rightarrow> bool" where
  "casts_vote prevFrame currFrame prevBox currBox match \<longleftrightarrow>
     Rect_contains2f (roi prevBox) (pt (keypoints prevFrame ! queryIdx match)) \<and>
     Rect_contains2f (roi currBox) (pt (keypoints currFrame ! trainIdx match))"

definition votes :: "DMatch list \<Rightarrow> DataFrame \<Rightarrow> DataFrame \<Rightarrow> BoundingBox \<Rightarrow> int \<Rightarrow> int" where
  "votes matches prevFrame currFrame prevBox c =
     int (length (filter (\<lambda>(currBox, match).
                      boxID currBox = c \<and> casts_vote prevFrame currFrame prevBox currBox match)
                   (List.product (boundingBoxes currFrame) matches)))"

definition map_ok :: "int_map \<Rightarrow> bool" where
  "map_ok m \<longleftrightarrow> sorted (map fst m) \<and> distinct (map fst m) \<and> list_all (\<lambda>(k, v). 0 < v) m"

definition cnt :: "int_map \<Rightarrow> int \<Rightarrow> int" where
  "cnt m c = (case map_of m c of None \<Rightarrow> 0 | Some v \<Rightarrow> v)"

lemma map_put_keys: "set (map fst (map_put m k v)) = insert k (set (map fst m))"
  by (induction m k v rule: map_put.induct) auto

lemma map_put_ok: "map_ok m \<Longrightarrow> 0 < v \<Longrightarrow> map_ok (map_put m k v)"
proof (induction m k v rule: map_put.induct)
  case (1 k v)
  then show ?case by (simp add: map_ok_def)
next
  case (2 k' v' m k v)
  then show ?case
    using map_put_keys[of m k v]
    by (auto simp: map_ok_def simp del: set_map)
qed

lemma map_of_map_put: "map_ok m \<Longrightarrow> map_of (map_put m k v) = (map_of m)(k \<mapsto> v)"
proof (induction m k v rule: map_put.induct)
  case (1 k v)
  then show ?case by simp
next
  case (2 k' v' m k v)
  then show ?case
    by (auto simp: map_ok_def fun_eq_iff map_of_eq_None_iff[symmetric] simp del: map_of_eq_None_iff)
qed


lemma cnt_nonneg: "map_ok m \<Longrightarrow> 0 \<le> cnt m c"
  by (auto simp: cnt_def map_ok_def list_all_iff split: option.splits dest!: map_of_SomeD)

lemma vote_step:
  assumes "map_ok m"
  shows "map_ok (case map_of m k of None \<Rightarrow> map_put m k 1 | Some c \<Rightarrow> map_put m k (c + 1)) \<and>
     (\<forall>c. cnt (case map_of m k of None \<Rightarrow> map_put m k 1 | Some c \<Rightarrow> map_put m k (c + 1)) c
          = cnt m c + (if c = k then 1 else 0))"
proof (cases "map_of m k")
  case None
  with assms show ?thesis
    by (simp add: map_put_ok cnt_def map_of_map_put)
next
  case (Some v)
  with assms(1) have "0 \<le> v" using cnt_nonneg[of m k] by (simp add: cnt_def)
  with Some assms show ?thesis
    by (simp add: map_put_ok cnt_def map_of_map_put)
qed

definition indices_ok :: "DMatch list \<Rightarrow> DataFrame \<Rightarrow> DataFrame \<Rightarrow> bool" where
  "indices_ok matches prevFrame currFrame =
     list_all (\<lambda>match. queryIdx match < length (keypoints prevFrame) \<and>
                       trainIdx match < length (keypoints currFrame)) matches"

lemma matchBoundingBoxes_matches_cnt:
  "indices_ok ms prevFrame currFrame \<Longrightarrow> map_ok m \<Longrightarrow>
   \<exists>m'. matchBoundingBoxes_matches prevBox currBox ms prevFrame currFrame m = Inr m' \<and>
      map_ok m' \<and>
      (\<forall>c. cnt m' c = cnt m c +
         int (length (filter (\<lambda>match. boxID currBox = c \<and>
                 casts_vote prevFrame currFrame prevBox currBox match) ms)))"
proof (induction ms arbitrary: m)
  case Nil
  then show ?case by simp
next
  case (Cons match ms)
  from Cons.prems have inr: "queryIdx match < length (keypoints prevFrame)"
    "trainIdx match < length (keypoints currFrame)" and rest: "indices_ok ms prevFrame currFrame"
    by (simp_all add: indices_ok_def)
  show ?case
  proof (cases "casts_vote prevFrame currFrame prevBox currBox match")
    case True
    let ?m1 = "case map_of m (boxID currBox) of None \<Rightarrow> map_put m (boxID currBox) 1
        | Some c \<Rightarrow> map_put m (boxID currBox) (c + 1)"
    from vote_step[OF Cons.prems(2), of "boxID currBox"]
    have ok1: "map_ok ?m1" and c1: "\<forall>c. cnt ?m1 c = cnt m c + (if c = boxID currBox then 1 else 0)"
      by simp_all
    from Cons.IH[OF rest ok1] obtain m' where
      r: "matchBoundingBoxes_matches prevBox currBox ms prevFrame currFrame ?m1 = Inr m'"
      and ok: "map_ok m'"
      and c: "\<forall>c. cnt m' c = cnt ?m1 c +
         int (length (filter (\<lambda>match. boxID currBox = c \<and>
                 casts_vote prevFrame currFrame prevBox currBox match) ms))" by blast
    have "matchBoundingBoxes_matches prevBox currBox (match # ms) prevFrame currFrame m = Inr m'"
      using True inr r by (simp add: casts_vote_def Let_def)
    moreover have "\<forall>c. cnt m' c = cnt m c +
         int (length (filter (\<lambda>match. boxID currBox = c \<and>
                 casts_vote prevFrame currFrame prevBox currBox match) (match # ms)))"
      using c c1 True by auto
    ultimately show ?thesis using ok by blast
  next
    case False
    from Cons.IH[OF rest Cons.prems(2)] obtain m' where
      r: "matchBoundingBoxes_matches prevBox currBox ms prevFrame currFrame m = Inr m'"
      and ok: "map_ok m'"
      and c: "\<forall>c. cnt m' c = cnt m c +
         int (length (filter (\<lambda>match. boxID currBox = c \<and>
                 casts_vote prevFrame currFrame prevBox currBox match) ms))" by blast
    have "matchBoundingBoxes_matches prevBox currBox (match # ms) prevFrame currFrame m = Inr m'"
      using False inr r by (auto simp: casts_vote_def Let_def)
    moreover have "\<forall>c. cnt m' c = cnt m c +
         int (length (filter (\<lambda>match. boxID currBox = c \<and>
                 casts_vote prevFrame currFrame prevBox currBox match) (match # ms)))"
      using c False by auto
    ultimately show ?thesis using ok by blast
  qed
qed

lemma matchBoundingBoxes_currBoxes_cnt:
  "indices_ok ms prevFrame currFrame \<Longrightarrow> map_ok m \<Longrightarrow>
   \<exists>m'. matchBoundingBoxes_currBoxes prevBox cbs ms prevFrame currFrame m = Inr m' \<and>
      map_ok m' \<and>
      (\<forall>c. cnt m' c = cnt m c +
         int (length (filter (\<lambda>(currBox, match). boxID currBox = c \<and>
                 casts_vote prevFrame currFrame prevBox currBox match) (List.product cbs ms))))"
proof (induction cbs arbitrary: m)
  case Nil
  then show ?case by simp
next
  case (Cons cb cbs)
  from matchBoundingBoxes_matches_cnt[OF Cons.prems, of prevBox cb] obtain m1 where
    r1: "matchBoundingBoxes_matches prevBox cb ms prevFrame currFrame m = Inr m1"
    and ok1: "map_ok m1"
    and c1: "\<forall>c. cnt m1 c = cnt m c +
         int (length (filter (\<lambda>match. boxID cb = c \<and>
                 casts_vote prevFrame currFrame prevBox cb match) ms))" by blast
  from Cons.IH[OF Cons.prems(1) ok1] obtain m' where
    r: "matchBoundingBoxes_currBoxes prevBox cbs ms prevFrame currFrame m1 = Inr m'"
    and ok: "map_ok m'"
    and c: "\<forall>c. cnt m' c = cnt m1 c +
         int (length (filter (\<lambda>(currBox, match). boxID currBox = c \<and>
                 casts_vote prevFrame currFrame prevBox currBox match) (List.product cbs ms)))"
    by blast
  have "matchBoundingBoxes_currBoxes prevBox (cb # cbs) ms prevFrame currFrame m = Inr m'"
    using r1 r by simp
  moreover have "\<forall>c. cnt m' c = cnt m c +
         int (length (filter (\<lambda>(currBox, match). boxID currBox = c \<and>
                 casts_vote prevFrame currFrame prevBox currBox match) (List.product (cb # cbs) ms)))"
    using c c1 by (simp add: filter_map comp_def)
  ultimately show ?case using ok by blast
qed

lemma tally_votes:
  assumes "indices_ok matches prevFrame currFrame"
  shows "\<exists>m. matchBoundingBoxes_currBoxes prevBox (boundingBoxes currFrame) matches prevFrame
            currFrame [] = Inr m \<and>
      map_ok m \<and> (\<forall>c. cnt m c = votes matches prevFrame currFrame prevBox c)"
  using matchBoundingBoxes_currBoxes_cnt[OF assms, of "[]" prevBox "boundingBoxes currFrame"]
  by (simp add: map_ok_def cnt_def votes_def)


lemma max_step_simps:
  "snd p1 < snd p2 \<Longrightarrow> max_step p2 p1 = p2"
  "\<not> snd p1 < snd p2 \<Longrightarrow> max_step p2 p1 = p1"
  by (simp_all add: max_step_def)

lemma max_element_fold:
  assumes "\<forall>q \<in> set ps. fst acc < fst q" and "sorted (map fst ps)" and "distinct (map fst ps)"
    and "b = fold max_step ps acc"
  shows "(b = acc \<or> b \<in> set ps) \<and> snd acc \<le> snd b \<and> (\<forall>q \<in> set ps. snd q \<le> snd b) \<and>
     (snd b = snd acc \<longrightarrow> b = acc) \<and>
     (\<forall>q \<in> set ps. snd q = snd b \<longrightarrow> fst b \<le> fst q)"
  using assms
proof (induction ps arbitrary: acc)
  case Nil
  then show ?case by simp
next
  case (Cons q qs)
  from Cons.prems have sd: "sorted (map fst qs)" "distinct (map fst qs)"
    and qlt: "\<forall>q' \<in> set qs. fst q < fst q'" and aq: "fst acc < fst q"
    and alt: "\<forall>q' \<in> set qs. fst acc < fst q'"
    by (auto simp: less_le)
  show ?case
  proof (cases "snd acc < snd q")
    case True
    with Cons.prems(4) have b: "b = fold max_step qs q" by (simp add: max_step_simps)
    from Cons.IH[OF qlt sd b]
    have 1: "b = q \<or> b \<in> set qs" and 2: "snd q \<le> snd b" and 3: "\<forall>q' \<in> set qs. snd q' \<le> snd b"
      and 4: "snd b = snd q \<longrightarrow> b = q"
      and 5: "\<forall>q' \<in> set qs. snd q' = snd b \<longrightarrow> fst b \<le> fst q'" by blast+
    have a: "b = acc \<or> b \<in> set (q # qs)" using 1 by auto
    have b': "snd acc \<le> snd b" using True 2 by simp
    have c: "\<forall>q' \<in> set (q # qs). snd q' \<le> snd b" using 2 3 by simp
    have d: "snd b = snd acc \<longrightarrow> b = acc" using True 2 by simp
    have e: "\<forall>q' \<in> set (q # qs). snd q' = snd b \<longrightarrow> fst b \<le> fst q'" using 4 5 by auto
    from a b' c d e show ?thesis by blast
  next
    case False
    with Cons.prems(4) have b: "b = fold max_step qs acc" by (simp add: max_step_simps)
    from Cons.IH[OF alt sd b]
    have 1: "b = acc \<or> b \<in> set qs" and 2: "snd acc \<le> snd b" and 3: "\<forall>q' \<in> set qs. snd q' \<le> snd b"
      and 4: "snd b = snd acc \<longrightarrow> b = acc"
      and 5: "\<forall>q' \<in> set qs. snd q' = snd b \<longrightarrow> fst b \<le> fst q'" by blast+
    have a: "b = acc \<or> b \<in> set (q # qs)" using 1 by auto
    have c: "\<forall>q' \<in> set (q # qs). snd q' \<le> snd b" using False 2 3 by simp
    have "fst b \<le> fst q" if "snd q = snd b"
    proof -
      from that False 2 have "snd b = snd acc" by simp
      with 4 have "b = acc" by simp
      with aq show ?thesis by simp
    qed
    with 5 have e: "\<forall>q' \<in> set (q # qs). snd q' = snd b \<longrightarrow> fst b \<le> fst q'" by simp
    from a 2 c 4 e show ?thesis by blast
  qed
qed

lemma get_max_spec:
  assumes "map_ok m" and "m \<noteq> []"
  shows "\<exists>k v. get_max m = Inr (k, v) \<and> (k, v) \<in> set m \<and>
      (\<forall>(k', v') \<in> set m. v' \<le> v \<and> (v' = v \<longrightarrow> k \<le> k'))"
proof -
  from assms(2) obtain p ps where m: "m = p # ps" by (cases m) auto
  define b where "b = fold max_step ps p"
  from assms(1) m have sd: "sorted (map fst ps) \<and> distinct (map fst ps)"
    and lt: "\<forall>q \<in> set ps. fst p < fst q"
    by (auto simp: map_ok_def less_le)
  from max_element_fold[OF lt _ _ b_def] sd
  have 1: "b = p \<or> b \<in> set ps" and 2: "snd p \<le> snd b" and 3: "\<forall>q \<in> set ps. snd q \<le> snd b"
    and 4: "snd b = snd p \<longrightarrow> b = p"
    and 5: "\<forall>q \<in> set ps. snd q = snd b \<longrightarrow> fst b \<le> fst q" by blast+
  have g: "get_max m = Inr (fst b, snd b)" by (simp add: m b_def)
  have mem: "(fst b, snd b) \<in> set m" using 1 m by auto
  have "snd q \<le> snd b \<and> (snd q = snd b \<longrightarrow> fst b \<le> fst q)" if "q \<in> set m" for q
  proof (cases "q = p")
    case True
    with 2 4 show ?thesis by auto
  next
    case False
    with that m have "q \<in> set ps" by simp
    with 3 5 show ?thesis by blast
  qed
  then have all: "\<forall>(k', v') \<in> set m. v' \<le> snd b \<and> (v' = snd b \<longrightarrow> fst b \<le> k')"
    by fastforce
  from g mem all show ?thesis by blast
qed

text \<open>
  \<open>best_vote\<close>: the id has a vote, no id has more, and no id with as many is smaller.
  \<open>has_vote\<close>: some correspondence casts a vote for the previous box and some current box.
\<close>

definition best_vote :: "DMatch list \<Rightarrow> DataFrame \<Rightarrow> DataFrame \<Rightarrow> BoundingBox \<Rightarrow> int \<Rightarrow> bool" where
  "best_vote matches prevFrame currFrame prevBox c \<longleftrightarrow>
     0 < votes matches prevFrame currFrame prevBox c \<and>
     (\<forall>c'. votes matches prevFrame currFrame prevBox c' \<le> votes matches prevFrame currFrame prevBox c) \<and>
     (\<forall>c'. votes matches prevFrame currFrame prevBox c' = votes matches prevFrame currFrame prevBox c
            \<longrightarrow> c \<le> c')"

definition has_vote :: "DMatch list \<Rightarrow> DataFrame \<Rightarrow> DataFrame \<Rightarrow> BoundingBox \<Rightarrow> bool" where
  "has_vote matches prevFrame currFrame prevBox \<longleftrightarrow>
     list_ex (\<lambda>(currBox, match). casts_vote prevFrame currFrame prevBox currBox match)
       (List.product (boundingBoxes currFrame) matches)"

lemma has_vote_votes:
  "has_vote matches prevFrame currFrame prevBox \<longleftrightarrow>
     (\<exists>c. 0 < votes matches prevFrame currFrame prevBox c)"
proof
  assume "has_vote matches prevFrame currFrame prevBox"
  then obtain currBox match where
    "(currBox, match) \<in> set (List.product (boundingBoxes currFrame) matches)"
    "casts_vote prevFrame currFrame prevBox currBox match"
    by (auto simp: has_vote_def list_ex_iff)
  then have "filter (\<lambda>(cb, mt). boxID cb = boxID currBox \<and>
      casts_vote prevFrame currFrame prevBox cb mt) (List.product (boundingBoxes currFrame) matches) \<noteq> []"
    by (force simp: filter_empty_conv simp del: set_product)
  then show "\<exists>c. 0 < votes matches prevFrame currFrame prevBox c"
    by (auto simp: votes_def)
next
  assume "\<exists>c. 0 < votes matches prevFrame currFrame prevBox c"
  then show "has_vote matches prevFrame currFrame prevBox"
    by (auto simp: votes_def has_vote_def list_ex_iff filter_empty_conv simp del: set_product)
qed

lemma best_match_step:
  assumes "indices_ok matches prevFrame currFrame"
  shows "\<exists>m. matchBoundingBoxes_currBoxes prevBox (boundingBoxes currFrame) matches prevFrame
            currFrame [] = Inr m \<and>
     (if has_vote matches prevFrame currFrame prevBox
      then \<exists>c v. get_max m = Inr (c, v) \<and> best_vote matches prevFrame currFrame prevBox c
      else get_max m = Inl UndefinedBehaviour)"
proof -
  from tally_votes[OF assms, of prevBox] obtain m where
    r: "matchBoundingBoxes_currBoxes prevBox (boundingBoxes currFrame) matches prevFrame
            currFrame [] = Inr m"
    and ok: "map_ok m" and c: "\<And>c. cnt m c = votes matches prevFrame currFrame prevBox c"
    by blast
  from ok have pos: "\<And>k v. (k, v) \<in> set m \<Longrightarrow> 0 < v" and dist: "distinct (map fst m)"
    by (auto simp: map_ok_def list_all_iff)
  have cnt_mem: "cnt m k = v" if "(k, v) \<in> set m" for k v
    using that dist by (simp add: cnt_def)
  show ?thesis
  proof (cases "has_vote matches prevFrame currFrame prevBox")
    case True
    then obtain c0 where "0 < cnt m c0" using c by (auto simp: has_vote_votes)
    then have ne: "m \<noteq> []" by (auto simp: cnt_def)
    from get_max_spec[OF ok ne] obtain k v where
      g: "get_max m = Inr (k, v)" and mem: "(k, v) \<in> set m"
      and mx: "\<forall>(k', v') \<in> set m. v' \<le> v \<and> (v' = v \<longrightarrow> k \<le> k')" by blast
    have vk: "votes matches prevFrame currFrame prevBox k = v" using cnt_mem[OF mem] c by simp
    have vpos: "0 < v" using pos[OF mem] .
    have le: "votes matches prevFrame currFrame prevBox c' \<le> v" for c'
    proof (cases "map_of m c'")
      case None
      then have "cnt m c' = 0" by (simp add: cnt_def)
      with c[of c'] vpos show ?thesis by simp
    next
      case (Some v')
      then have "(c', v') \<in> set m" by (rule map_of_SomeD)
      with mx cnt_mem[of c' v'] c[of c'] show ?thesis by auto
    qed
    have tie: "k \<le> c'" if "votes matches prevFrame currFrame prevBox c' = v" for c'
    proof (cases "map_of m c'")
      case None
      then have "cnt m c' = 0" by (simp add: cnt_def)
      with c[of c'] that vpos show ?thesis by simp
    next
      case (Some v')
      then have m': "(c', v') \<in> set m" by (rule map_of_SomeD)
      with cnt_mem[of c' v'] c[of c'] that have "v' = v" by simp
      with mx m' show ?thesis by auto
    qed
    have "best_vote matches prevFrame currFrame prevBox k"
      using vk vpos le tie by (simp add: best_vote_def)
    with r g True show ?thesis by auto
  next
    case False
    then have "\<And>c. cnt m c = 0" using c cnt_nonneg[OF ok]
      by (simp add: has_vote_votes) (metis c not_less order_antisym)
    then have "m = []"
      using pos cnt_mem by (cases m) fastforce+
    with r False show ?thesis by simp
  qed
qed


lemma matchBoundingBoxes_prevBoxes_spec:
  assumes "indices_ok matches prevFrame currFrame"
    and "list_all (has_vote matches prevFrame currFrame) bs"
  shows "\<exists>bb. matchBoundingBoxes_prevBoxes bs matches bb0 prevFrame currFrame = Inr bb \<and>
     (\<forall>ps prevBox qs. bs = ps @ prevBox # qs \<and> boxID prevBox \<notin> boxID ` set qs \<longrightarrow>
        (\<exists>c. bb (boxID prevBox) = Some c \<and> best_vote matches prevFrame currFrame prevBox c)) \<and>
     (\<forall>k. k \<notin> boxID ` set bs \<longrightarrow> bb k = bb0 k)"
  using assms(2)
proof (induction bs arbitrary: bb0)
  case Nil
  then show ?case by simp
next
  case (Cons b bs)
  from Cons.prems have hv: "has_vote matches prevFrame currFrame b"
    and rest: "list_all (has_vote matches prevFrame currFrame) bs" by simp_all
  from best_match_step[OF assms(1), of b] hv obtain m c v where
    t: "matchBoundingBoxes_currBoxes b (boundingBoxes currFrame) matches prevFrame currFrame [] = Inr m"
    and g: "get_max m = Inr (c, v)" and best: "best_vote matches prevFrame currFrame b c"
    by auto
  from Cons.IH[OF rest, of "bb0(boxID b \<mapsto> c)"] obtain bb where
    r: "matchBoundingBoxes_prevBoxes bs matches (bb0(boxID b \<mapsto> c)) prevFrame currFrame = Inr bb"
    and dec: "\<And>ps prevBox qs. bs = ps @ prevBox # qs \<Longrightarrow> boxID prevBox \<notin> boxID ` set qs \<Longrightarrow>
        \<exists>c. bb (boxID prevBox) = Some c \<and> best_vote matches prevFrame currFrame prevBox c"
    and keep: "\<And>k. k \<notin> boxID ` set bs \<Longrightarrow> bb k = (bb0(boxID b \<mapsto> c)) k"
    by blast
  have step: "matchBoundingBoxes_prevBoxes (b # bs) matches bb0 prevFrame currFrame = Inr bb"
    using t g r by simp
  have d': "\<exists>c. bb (boxID prevBox) = Some c \<and> best_vote matches prevFrame currFrame prevBox c"
    if "b # bs = ps @ prevBox # qs" "boxID prevBox \<notin> boxID ` set qs" for ps prevBox qs
  proof (cases ps)
    case Nil
    with that have "prevBox = b" "qs = bs" by simp_all
    with that(2) keep[of "boxID b"] best show ?thesis by simp
  next
    case (Cons a ps')
    with that(1) have "bs = ps' @ prevBox # qs" by simp
    from dec[OF this that(2)] show ?thesis .
  qed
  have k': "bb k = bb0 k" if "k \<notin> boxID ` set (b # bs)" for k
    using that keep[of k] by simp
  from step d' k' show ?case by blast
qed

lemma matchBoundingBoxes_prevBoxes_no_vote:
  assumes "indices_ok matches prevFrame currFrame"
    and "\<not> list_all (has_vote matches prevFrame currFrame) bs"
  shows "matchBoundingBoxes_prevBoxes bs matches bb0 prevFrame currFrame = Inl UndefinedBehaviour"
  using assms(2)
proof (induction bs arbitrary: bb0)
  case Nil
  then show ?case by simp
next
  case (Cons b bs)
  from best_match_step[OF assms(1), of b] obtain m where
    t: "matchBoundingBoxes_currBoxes b (boundingBoxes currFrame) matches prevFrame currFrame [] = Inr m"
    and alt: "if has_vote matches prevFrame currFrame b
      then \<exists>c v. get_max m = Inr (c, v) \<and> best_vote matches prevFrame currFrame b c
      else get_max m = Inl UndefinedBehaviour" by blast
  show ?case
  proof (cases "has_vote matches prevFrame currFrame b")
    case True
    with alt obtain c v where g: "get_max m = Inr (c, v)" by auto
    from True Cons.prems have "\<not> list_all (has_vote matches prevFrame currFrame) bs" by simp
    from Cons.IH[OF this] t g show ?thesis by simp
  next
    case False
    with alt t show ?thesis by simp
  qed
qed

text \<open>
  The tie-break as the spec words it: among the ids with the highest vote count, the one
  met first in the current frame's box order.
\<close>

definition first_best :: "DMatch list \<Rightarrow> DataFrame \<Rightarrow> DataFrame \<Rightarrow> BoundingBox \<Rightarrow> int" where
  "first_best matches prevFrame currFrame prevBox =
     (let ids = map boxID (boundingBoxes currFrame);
          top = Max (set (map (votes matches prevFrame currFrame prevBox) ids))
      in hd (filter (\<lambda>c. votes matches prevFrame currFrame prevBox c = top) ids))"

lemma hd_filter_sorted:
  fixes xs :: "int list"
  shows "sorted xs \<Longrightarrow> x \<in> set xs \<Longrightarrow> P x \<Longrightarrow>
    P (hd (filter P xs)) \<and> hd (filter P xs) \<le> x"
  by (induction xs) auto

lemma best_vote_first_best:
  assumes "sorted (map boxID (boundingBoxes currFrame))"
    and "best_vote matches prevFrame currFrame prevBox c"
  shows "first_best matches prevFrame currFrame prevBox = c"
proof -
  let ?ids = "map boxID (boundingBoxes currFrame)"
  let ?v = "votes matches prevFrame currFrame prevBox"
  from assms(2) have pos: "0 < ?v c" and le: "\<And>c'. ?v c' \<le> ?v c"
    and tie: "\<And>c'. ?v c' = ?v c \<Longrightarrow> c \<le> c'"
    by (simp_all add: best_vote_def)
  from pos have "filter (\<lambda>(currBox, match). boxID currBox = c \<and>
      casts_vote prevFrame currFrame prevBox currBox match)
      (List.product (boundingBoxes currFrame) matches) \<noteq> []"
    by (auto simp: votes_def)
  then obtain cb mt where "(cb, mt) \<in> set (List.product (boundingBoxes currFrame) matches)"
    and "boxID cb = c"
    by (auto simp: filter_empty_conv simp del: set_product)
  then have cin: "c \<in> set ?ids" by auto
  have top: "Max (set (map ?v ?ids)) = ?v c"
  proof (rule Max_eqI)
    show "finite (set (map ?v ?ids))" by simp
    show "y \<le> ?v c" if "y \<in> set (map ?v ?ids)" for y using that le by auto
    show "?v c \<in> set (map ?v ?ids)" using cin by auto
  qed
  from hd_filter_sorted[OF assms(1) cin, of "\<lambda>c'. ?v c' = ?v c"]
  have "?v (hd (filter (\<lambda>c'. ?v c' = ?v c) ?ids)) = ?v c"
    and 2: "hd (filter (\<lambda>c'. ?v c' = ?v c) ?ids) \<le> c" by simp_all
  from tie[OF this(1)] 2 have "hd (filter (\<lambda>c'. ?v c' = ?v c) ?ids) = c" by simp
  then show ?thesis unfolding first_best_def Let_def top .
qed

text \<open>
  Claim C5, as amended. When the indices of the correspondences are in range and every
  previous box has at least one vote, \<open>matchBoundingBoxes\<close> returns, and it maps the id of
  every previous box (the last box of that id, should two share one) to the current box
  id with the highest vote count; a vote for a pair of boxes is cast by each
  correspondence with its previous keypoint in the previous box and its current keypoint
  in the current box. When several ids tie on the highest count the smallest id is
  chosen; this is the id met first during tallying when the ids ascend along the current
  frame's box list. Entries of other keys are left as they were.
\<close>

theorem matchBoundingBoxes_best_vote:
  assumes "indices_ok matches prevFrame currFrame"
    and "list_all (has_vote matches prevFrame currFrame) (boundingBoxes prevFrame)"
  shows "\<exists>bb. matchBoundingBoxes matches bbBestMatches prevFrame currFrame = Inr bb \<and>
     (\<forall>ps prevBox qs.
        boundingBoxes prevFrame = ps @ prevBox # qs \<and> boxID prevBox \<notin> boxID ` set qs \<longrightarrow>
        (\<exists>c. bb (boxID prevBox) = Some c \<and> best_vote matches prevFrame currFrame prevBox c \<and>
           (sorted (map boxID (boundingBoxes currFrame)) \<longrightarrow>
              c = first_best matches prevFrame currFrame prevBox))) \<and>
     (\<forall>k. k \<notin> boxID ` set (boundingBoxes prevFrame) \<longrightarrow> bb k = bbBestMatches k)"
proof -
  from matchBoundingBoxes_prevBoxes_spec[OF assms, of bbBestMatches] obtain bb where
    r: "matchBoundingBoxes_prevBoxes (boundingBoxes prevFrame) matches bbBestMatches prevFrame
          currFrame = Inr bb"
    and dec: "\<And>ps prevBox qs. boundingBoxes prevFrame = ps @ prevBox # qs \<and>
        boxID prevBox \<notin> boxID ` set qs \<longrightarrow>
        (\<exists>c. bb (boxID prevBox) = Some c \<and> best_vote matches prevFrame currFrame prevBox c)"
    and keep: "\<forall>k. k \<notin> boxID ` set (boundingBoxes prevFrame) \<longrightarrow> bb k = bbBestMatches k"
    by blast
  have "\<exists>c. bb (boxID prevBox) = Some c \<and> best_vote matches prevFrame currFrame prevBox c \<and>
           (sorted (map boxID (boundingBoxes currFrame)) \<longrightarrow>
              c = first_best matches prevFrame currFrame prevBox)"
    if "boundingBoxes prevFrame = ps @ prevBox # qs \<and> boxID prevBox \<notin> boxID ` set qs"
    for ps prevBox qs
  proof -
    from dec[of ps prevBox qs] that obtain c where
      c: "bb (boxID prevBox) = Some c" "best_vote matches prevFrame currFrame prevBox c" by blast
    from best_vote_first_best[OF _ c(2)]
    have "sorted (map boxID (boundingBoxes currFrame)) \<longrightarrow>
        c = first_best matches prevFrame currFrame prevBox" by simp
    with c show ?thesis by blast
  qed
  with r keep show ?thesis unfolding matchBoundingBoxes_def by blast
qed

text \<open>Example frames: boxes of 100 by 100 pixels and keypoints on the row \<open>y = 50\<close>.\<close>

definition wide_box :: "int \<Rightarrow> BoundingBox" where
  "wide_box i = \<lparr>boxID = i, roi = \<lparr>rect_x = 0, rect_y = 0, rect_width = 100, rect_height = 100\<rparr>,
     lidarPoints = [], kptMatches = []\<rparr>"

definition frame_of :: "real list \<Rightarrow> BoundingBox list \<Rightarrow> DataFrame" where
  "frame_of xs boxes = \<lparr>keypoints = kps_on_row xs, boundingBoxes = boxes\<rparr>"

lemma cvRound_numeral [simp]: "cvRound (numeral n) = numeral n"
  by (simp add: cvRound_def)

text \<open>
  Claim C4 says that a previous box without any vote gets no entry in the result and that
  the caller is told "no match". The code does neither: for such a box the map \<open>m\<close> is
  empty, \<open>get_max(m)\<close> dereferences \<open>end()\<close>, and the next line stores
  \<open>bbBestMatches[prevBox.boxID]\<close> unconditionally. Two inputs: no correspondence at all, and
  one correspondence whose previous keypoint lies outside the box.
\<close>

theorem matchBoundingBoxes_no_vote_undefined:
  "matchBoundingBoxes [] Map.empty (frame_of [50] [wide_box 4]) (frame_of [50] [wide_box 9])
     = Inl UndefinedBehaviour \<and>
   matchBoundingBoxes [\<lparr>queryIdx = 0, trainIdx = 0\<rparr>] Map.empty (frame_of [500] [wide_box 4])
     (frame_of [50] [wide_box 9]) = Inl UndefinedBehaviour \<and>
   get_max [] = Inl UndefinedBehaviour"
  by (simp add: matchBoundingBoxes_def frame_of_def wide_box_def kps_on_row_def)

text \<open>
  Claim C5 as written fails where the ids do not ascend along the current frame's box
  list: two current boxes with the ids 9 and 6, in this order, get one vote each; the
  first met is 9, \<open>get_max\<close> returns the entry with the smaller key, 6.
\<close>

theorem matchBoundingBoxes_tie_counterexample:
  "matchBoundingBoxes [\<lparr>queryIdx = 0, trainIdx = 0\<rparr>] Map.empty (frame_of [50] [wide_box 4])
     (frame_of [50] [wide_box 9, wide_box 6]) = Inr [4 \<mapsto> 6] \<and>
   votes [\<lparr>queryIdx = 0, trainIdx = 0\<rparr>] (frame_of [50] [wide_box 4])
     (frame_of [50] [wide_box 9, wide_box 6]) (wide_box 4) 9 = 1 \<and>
   votes [\<lparr>queryIdx = 0, trainIdx = 0\<rparr>] (frame_of [50] [wide_box 4])
     (frame_of [50] [wide_box 9, wide_box 6]) (wide_box 4) 6 = 1 \<and>
   first_best [\<lparr>queryIdx = 0, trainIdx = 0\<rparr>] (frame_of [50] [wide_box 4])
     (frame_of [50] [wide_box 9, wide_box 6]) (wide_box 4) = 9"
  by (simp add: matchBoundingBoxes_def frame_of_def wide_box_def kps_on_row_def votes_def
      casts_vote_def first_best_def max_step_def)

theorem matchBoundingBoxes_best_vote_witness:
  "indices_ok [\<lparr>queryIdx = 0, trainIdx = 0\<rparr>, \<lparr>queryIdx = 0, trainIdx = 2\<rparr>, \<lparr>queryIdx = 0, trainIdx = 3\<rparr>]
     (frame_of [50] [wide_box 4]) (frame_of [50, 0, 60, 150] [wide_box 9, (wide_box 6)\<lparr>roi := \<lparr>rect_x = 100, rect_y = 0, rect_width = 100, rect_height = 100\<rparr>\<rparr>]) \<and>
   matchBoundingBoxes [\<lparr>queryIdx = 0, trainIdx = 0\<rparr>, \<lparr>queryIdx = 0, trainIdx = 2\<rparr>, \<lparr>queryIdx = 0, trainIdx = 3\<rparr>]
     Map.empty (frame_of [50] [wide_box 4])
     (frame_of [50, 0, 60, 150] [wide_box 9, (wide_box 6)\<lparr>roi := \<lparr>rect_x = 100, rect_y = 0, rect_width = 100, rect_height = 100\<rparr>\<rparr>])
     = Inr [4 \<mapsto> 9] \<and>
   best_vote [\<lparr>queryIdx = 0, trainIdx = 0\<rparr>, \<lparr>queryIdx = 0, trainIdx = 2\<rparr>, \<lparr>queryIdx = 0, trainIdx = 3\<rparr>]
     (frame_of [50] [wide_box 4])
     (frame_of [50, 0, 60, 150] [wide_box 9, (wide_box 6)\<lparr>roi := \<lparr>rect_x = 100, rect_y = 0, rect_width = 100, rect_height = 100\<rparr>\<rparr>])
     (wide_box 4) 9"
proof -
  let ?M = "[\<lparr>queryIdx = 0, trainIdx = 0\<rparr>, \<lparr>queryIdx = 0, trainIdx = 2\<rparr>, \<lparr>queryIdx = 0, trainIdx = 3\<rparr>]"
  let ?P = "frame_of [50] [wide_box 4]"
  let ?C = "frame_of [50, 0, 60, 150] [wide_box 9, (wide_box 6)\<lparr>roi := \<lparr>rect_x = 100, rect_y = 0, rect_width = 100, rect_height = 100\<rparr>\<rparr>]"
  have h1: "indices_ok ?M ?P ?C" by (simp add: indices_ok_def frame_of_def kps_on_row_def)
  have h2: "list_all (has_vote ?M ?P ?C) (boundingBoxes ?P)"
    by (simp add: has_vote_def casts_vote_def frame_of_def kps_on_row_def wide_box_def)
  have r: "matchBoundingBoxes ?M Map.empty ?P ?C = Inr [4 \<mapsto> 9]"
    by (simp add: matchBoundingBoxes_def frame_of_def wide_box_def kps_on_row_def max_step_def)
  from matchBoundingBoxes_best_vote[OF h1 h2, of Map.empty] obtain bb where
    bb: "matchBoundingBoxes ?M Map.empty ?P ?C = Inr bb"
    and dec: "\<And>ps prevBox qs.
        boundingBoxes ?P = ps @ prevBox # qs \<and> boxID prevBox \<notin> boxID ` set qs \<longrightarrow>
        (\<exists>c. bb (boxID prevBox) = Some c \<and> best_vote ?M ?P ?C prevBox c)"
    by blast
  have "boundingBoxes ?P = [] @ wide_box 4 # [] \<and> boxID (wide_box 4) \<notin> boxID ` set []"
    by (simp add: frame_of_def)
  with dec[of "[]" "wide_box 4" "[]"] obtain c where
    c: "bb (boxID (wide_box 4)) = Some c" "best_vote ?M ?P ?C (wide_box 4) c" by blast
  from bb r have "bb = [4 \<mapsto> 9]" by simp
  with c(1) have "c = 9" by (simp add: wide_box_def)
  with c(2) have "best_vote ?M ?P ?C (wide_box 4) 9" by simp
  with h1 r show ?thesis by simp
qed

section \<open>clusterLidarWithROI\<close>

text \<open>
  \<open>cv::Mat\<close> of \<open>double\<close>: the dimensions and the elements, row after row, as a continuous
  matrix stores them. \<open>Mat_ok\<close> is the invariant of every \<open>cv::Mat\<close>. \<open>Mat_entry\<close> is the
  element of row \<open>i\<close> and column \<open>j\<close>.
\<close>

record Mat =
  mat_rows :: nat
  mat_cols :: nat
  mat_data :: "real list"

definition Mat_ok :: "Mat \<Rightarrow> bool" where
  "Mat_ok M \<longleftrightarrow> length (mat_data M) = mat_rows M * mat_cols M"

definition Mat_entry :: "Mat \<Rightarrow> nat \<Rightarrow> nat \<Rightarrow> real" where
  "Mat_entry M i j = mat_data M ! (i * mat_cols M + j)"

text \<open>
  \<open>Mat::at<double>(i, j)\<close> is the element \<open>j\<close> places after the start of row \<open>i\<close>; in a
  continuous matrix row \<open>i\<close> starts at element \<open>i * cols\<close> of the buffer. OpenCV compares
  the two indices with the dimensions in \<open>CV_DbgAssert\<close> only, which is compiled away
  unless \<open>_DEBUG\<close> is defined, so the call has no such check here: any pair of indices
  that stays inside the buffer reads the element stored there, and a read beyond the
  buffer is undefined.
\<close>

definition Mat_at :: "Mat \<Rightarrow> nat \<Rightarrow> nat \<Rightarrow> error + real" where
  "Mat_at M i j =
     (if i * mat_cols M + j < length (mat_data M) then Inr (mat_data M ! (i * mat_cols M + j))
      else Inl UndefinedBehaviour)"

text \<open>
  The matrix product; OpenCV raises an error when the dimensions do not fit.
\<close>

definition Mat_mul :: "Mat \<Rightarrow> Mat \<Rightarrow> error + Mat" where
  "Mat_mul A B =
     (if Mat_ok A \<and> Mat_ok B \<and> mat_cols A = mat_rows B then
        Inr \<lparr>mat_rows = mat_rows A, mat_cols = mat_cols B,
             mat_data = concat (map (\<lambda>i. map (\<lambda>j.
               (\<Sum>k \<leftarrow> [0 ..< mat_cols A]. Mat_entry A i k * Mat_entry B k j))
               [0 ..< mat_cols B]) [0 ..< mat_rows A])\<rparr>
      else Inl OutOfRange)"

text \<open>
  The conversion of a \<open>double\<close> or \<open>float\<close> to \<open>int\<close>: towards zero.
\<close>

definition c_trunc :: "real \<Rightarrow> int" where
  "c_trunc v = (if 0 \<le> v then \<lfloor>v\<rfloor> else \<lceil>v\<rceil>)"

text \<open>
  Lines 24 to 33: the homogeneous point \<open>X\<close>, the product \<open>P_rect_xx * R_rect_xx * RT * X\<close>,
  which C++ groups from the left, and the pixel. The source reads \<open>Y.at<double>(0, 0)\<close>,
  \<open>Y.at<double>(1, 0)\<close> and, as the divisor, \<open>Y.at<double>(0, 2)\<close>. A quotient that is not
  finite has no conversion to \<open>int\<close>.
\<close>

definition homogeneous :: "LidarPoint \<Rightarrow> Mat" where
  "homogeneous it1 =
     \<lparr>mat_rows = 4, mat_cols = 1, mat_data = [lidar_x it1, lidar_y it1, lidar_z it1, 1]\<rparr>"

definition clusterLidarWithROI_project :: "Mat \<Rightarrow> Mat \<Rightarrow> Mat \<Rightarrow> LidarPoint \<Rightarrow> error + Point" where
  "clusterLidarWithROI_project P_rect_xx R_rect_xx RT it1 =
     (let X = homogeneous it1
      in case Mat_mul P_rect_xx R_rect_xx of
           Inl e \<Rightarrow> Inl e
         | Inr PR \<Rightarrow>
             (case Mat_mul PR RT of
                Inl e \<Rightarrow> Inl e
              | Inr PRT \<Rightarrow>
                  (case Mat_mul PRT X of
                     Inl e \<Rightarrow> Inl e
                   | Inr Y \<Rightarrow>
                       (case Mat_at Y 0 0 of
                          Inl e \<Rightarrow> Inl e
                        | Inr y00 \<Rightarrow>
                            (case Mat_at Y 0 2 of
                               Inl e \<Rightarrow> Inl e
                             | Inr y02 \<Rightarrow>
                                 (case Mat_at Y 1 0 of
                                    Inl e \<Rightarrow> Inl e
                                  | Inr y10 \<Rightarrow>
                                      (if y02 = 0 then Inl UndefinedBehaviour
                                       else Inr (c_trunc (y00 / y02), c_trunc (y10 / y02)))))))))"

text \<open>
  Lines 35 to 58, the part of the loop body after the projection: the shrunk rectangle
  of a box, the boxes that enclose the pixel (iterators are positions in the box list),
  and the assignment when exactly one does.
\<close>

definition smallerBox :: "real \<Rightarrow> Rect \<Rightarrow> Rect" where
  "smallerBox shrinkFactor r =
     \<lparr>rect_x = c_trunc (of_int (rect_x r) + shrinkFactor * of_int (rect_width r) / 2),
      rect_y = c_trunc (of_int (rect_y r) + shrinkFactor * of_int (rect_height r) / 2),
      rect_width = c_trunc (of_int (rect_width r) * (1 - shrinkFactor)),
      rect_height = c_trunc (of_int (rect_height r) * (1 - shrinkFactor))\<rparr>"

definition encloses :: "real \<Rightarrow> BoundingBox list \<Rightarrow> Point \<Rightarrow> nat \<Rightarrow> bool" where
  "encloses shrinkFactor boxes pixel it2 =
     Rect_contains (smallerBox shrinkFactor (roi (boxes ! it2))) pixel"

definition clusterLidarWithROI_assign ::
  "BoundingBox list \<Rightarrow> real \<Rightarrow> LidarPoint \<Rightarrow> Point \<Rightarrow> BoundingBox list"
where
  "clusterLidarWithROI_assign boxes shrinkFactor it1 pixel =
     (let enclosingBoxes = filter (encloses shrinkFactor boxes pixel) [0 ..< length boxes]
      in if length enclosingBoxes = 1
         then boxes[enclosingBoxes ! 0 :=
                (boxes ! (enclosingBoxes ! 0))
                  \<lparr>lidarPoints := lidarPoints (boxes ! (enclosingBoxes ! 0)) @ [it1]\<rparr>]
         else boxes)"

text \<open>
  The function: the loop over the lidar points. An error of the projection ends it.
\<close>

fun clusterLidarWithROI ::
  "BoundingBox list \<Rightarrow> LidarPoint list \<Rightarrow> real \<Rightarrow> Mat \<Rightarrow> Mat \<Rightarrow> Mat \<Rightarrow> error + BoundingBox list"
where
  "clusterLidarWithROI boxes [] shrinkFactor P_rect_xx R_rect_xx RT = Inr boxes"
| "clusterLidarWithROI boxes (it1 # rest) shrinkFactor P_rect_xx R_rect_xx RT =
     (case clusterLidarWithROI_project P_rect_xx R_rect_xx RT it1 of
        Inl e \<Rightarrow> Inl e
      | Inr pixel \<Rightarrow>
          clusterLidarWithROI (clusterLidarWithROI_assign boxes shrinkFactor it1 pixel) rest
            shrinkFactor P_rect_xx R_rect_xx RT)"

text \<open>
  Predicates for the statements: the pixel lies in the shrunk rectangle of box \<open>k\<close> and of
  no other box; the point has a pixel; the pixel of the point lies in the shrunk rectangle
  of box \<open>k\<close> and of no other box.
\<close>

definition only_box :: "real \<Rightarrow> BoundingBox list \<Rightarrow> Point \<Rightarrow> nat \<Rightarrow> bool" where
  "only_box shrinkFactor boxes pixel k \<longleftrightarrow>
     encloses shrinkFactor boxes pixel k \<and>
     (\<forall>j < length boxes. j \<noteq> k \<longrightarrow> \<not> encloses shrinkFactor boxes pixel j)"

definition projects :: "Mat \<Rightarrow> Mat \<Rightarrow> Mat \<Rightarrow> LidarPoint \<Rightarrow> bool" where
  "projects P_rect_xx R_rect_xx RT it1 =
     (case clusterLidarWithROI_project P_rect_xx R_rect_xx RT it1 of
        Inl e \<Rightarrow> False | Inr pixel \<Rightarrow> True)"

definition assigned_to ::
  "real \<Rightarrow> BoundingBox list \<Rightarrow> Mat \<Rightarrow> Mat \<Rightarrow> Mat \<Rightarrow> nat \<Rightarrow> LidarPoint \<Rightarrow> bool"
where
  "assigned_to shrinkFactor boxes P_rect_xx R_rect_xx RT k it1 =
     (case clusterLidarWithROI_project P_rect_xx R_rect_xx RT it1 of
        Inl e \<Rightarrow> False
      | Inr pixel \<Rightarrow> only_box shrinkFactor boxes pixel k)"

text \<open>
  Example data: two overlapping boxes of 100 by 100 pixels, a projection matrix that keeps
  \<open>x\<close>, \<open>y\<close> and \<open>z\<close>, the identity transform, and four lidar points.
\<close>

definition two_boxes :: "BoundingBox list" where
  "two_boxes =
     [\<lparr>boxID = 0, roi = \<lparr>rect_x = 0, rect_y = 0, rect_width = 100, rect_height = 100\<rparr>,
        lidarPoints = [], kptMatches = []\<rparr>,
      \<lparr>boxID = 1, roi = \<lparr>rect_x = 50, rect_y = 0, rect_width = 100, rect_height = 100\<rparr>,
        lidarPoints = [], kptMatches = []\<rparr>]"

definition pinhole :: Mat where
  "pinhole = \<lparr>mat_rows = 3, mat_cols = 4, mat_data = [1, 0, 0, 0,  0, 1, 0, 0,  0, 0, 1, 0]\<rparr>"

definition identity4 :: Mat where
  "identity4 = \<lparr>mat_rows = 4, mat_cols = 4,
     mat_data = [1, 0, 0, 0,  0, 1, 0, 0,  0, 0, 1, 0,  0, 0, 0, 1]\<rparr>"

definition roi_cloud :: "LidarPoint list" where
  "roi_cloud =
     [\<lparr>lidar_x = 20, lidar_y = 50, lidar_z = 1, lidar_r = 0\<rparr>,
      \<lparr>lidar_x = 60, lidar_y = 50, lidar_z = 1, lidar_r = 0\<rparr>,
      \<lparr>lidar_x = 200, lidar_y = 50, lidar_z = 1, lidar_r = 0\<rparr>,
      \<lparr>lidar_x = 40, lidar_y = 100, lidar_z = 2, lidar_r = 0\<rparr>]"

subsection \<open>Matrix products\<close>

lemma length_concat_rows:
  "length (concat (map (\<lambda>i. map (f i) [0 ..< c]) [0 ..< r])) = r * c"
  by (induction r) simp_all

lemma nth_concat_rows:
  "i < r \<Longrightarrow> j < c \<Longrightarrow> concat (map (\<lambda>i. map (f i) [0 ..< c]) [0 ..< r]) ! (i * c + j) = f i j"
proof (induction r)
  case 0
  then show ?case by simp
next
  case (Suc r)
  let ?pre = "concat (map (\<lambda>i. map (f i) [0 ..< c]) [0 ..< r])"
  have len: "length ?pre = r * c" by (rule length_concat_rows)
  show ?case
  proof (cases "i < r")
    case True
    then have "Suc i \<le> r" by simp
    then have "Suc i * c \<le> r * c" by (rule mult_le_mono1)
    with Suc.prems(2) have "i * c + j < r * c" by simp
    with Suc.IH[OF True Suc.prems(2)] len show ?thesis by (simp add: nth_append)
  next
    case False
    with Suc.prems(1) have "i = r" by simp
    with Suc.prems(2) len show ?thesis by (simp add: nth_append)
  qed
qed

lemma Mat_mul_dims:
  assumes "Mat_mul A B = Inr C"
  shows "Mat_ok C" "mat_rows C = mat_rows A" "mat_cols C = mat_cols B"
    "Mat_ok A" "Mat_ok B" "mat_cols A = mat_rows B"
  using assms by (auto simp: Mat_mul_def Mat_ok_def length_concat_rows split: if_splits)

lemma Mat_mul_entry:
  assumes "Mat_mul A B = Inr C" and "i < mat_rows A" and "j < mat_cols B"
  shows "Mat_entry C i j = (\<Sum>k = 0 ..< mat_cols A. Mat_entry A i k * Mat_entry B k j)"
proof -
  let ?f = "\<lambda>i j. (\<Sum>k \<leftarrow> [0 ..< mat_cols A]. Mat_entry A i k * Mat_entry B k j)"
  from assms(1) have cols: "mat_cols C = mat_cols B"
    and data: "mat_data C = concat (map (\<lambda>i. map (?f i) [0 ..< mat_cols B]) [0 ..< mat_rows A])"
    by (auto simp: Mat_mul_def split: if_splits)
  have "Mat_entry C i j = mat_data C ! (i * mat_cols B + j)"
    by (simp add: Mat_entry_def cols)
  also have "\<dots> = ?f i j"
    unfolding data by (rule nth_concat_rows[OF assms(2,3)])
  finally have "Mat_entry C i j = ?f i j" .
  then show ?thesis by (simp add: interv_sum_list_conv_sum_set_nat)
qed

lemma Mat_mul_exists:
  "Mat_ok A \<Longrightarrow> Mat_ok B \<Longrightarrow> mat_cols A = mat_rows B \<Longrightarrow> \<exists>C. Mat_mul A B = Inr C"
  by (simp add: Mat_mul_def)

lemma Mat_eqI:
  assumes "Mat_ok M" "Mat_ok N" "mat_rows M = mat_rows N" "mat_cols M = mat_cols N"
    and "\<And>i j. i < mat_rows M \<Longrightarrow> j < mat_cols M \<Longrightarrow> Mat_entry M i j = Mat_entry N i j"
  shows "M = N"
proof -
  have len: "length (mat_data M) = length (mat_data N)" using assms(1-4) by (simp add: Mat_ok_def)
  have "mat_data M ! n = mat_data N ! n" if "n < length (mat_data M)" for n
  proof -
    let ?c = "mat_cols M"
    from that assms(1) have n: "n < mat_rows M * ?c" by (simp add: Mat_ok_def)
    then have c: "0 < ?c" by (cases "?c = 0") auto
    from n c have i: "n div ?c < mat_rows M" by (simp add: less_mult_imp_div_less)
    from c have j: "n mod ?c < ?c" by simp
    have "n = n div ?c * ?c + n mod ?c" by simp
    with assms(5)[OF i j] assms(4) show ?thesis by (simp add: Mat_entry_def)
  qed
  with len have "mat_data M = mat_data N" by (simp add: nth_equalityI)
  with assms(3,4) show ?thesis by simp
qed

lemma Mat_mul_assoc:
  assumes AB: "Mat_mul A B = Inr AB" and BC: "Mat_mul B C = Inr BC"
  shows "Mat_mul AB C = Mat_mul A BC"
proof -
  note dAB = Mat_mul_dims[OF AB] and dBC = Mat_mul_dims[OF BC]
  from Mat_mul_exists[of AB C] dAB dBC obtain L where L: "Mat_mul AB C = Inr L" by auto
  from Mat_mul_exists[of A BC] dAB dBC obtain R where R: "Mat_mul A BC = Inr R" by auto
  note dL = Mat_mul_dims[OF L] and dR = Mat_mul_dims[OF R]
  have "L = R"
  proof (rule Mat_eqI)
    show "Mat_ok L" "Mat_ok R" by (fact dL(1), fact dR(1))
    show "mat_rows L = mat_rows R" using dL(2) dR(2) dAB(2) by simp
    show "mat_cols L = mat_cols R" using dL(3) dR(3) dBC(3) by simp
  next
    fix i j assume "i < mat_rows L" "j < mat_cols L"
    then have i: "i < mat_rows A" and j: "j < mat_cols C" using dL(2,3) dAB(2) by simp_all
    have "Mat_entry L i j = (\<Sum>k = 0 ..< mat_cols B. Mat_entry AB i k * Mat_entry C k j)"
      using Mat_mul_entry[OF L, of i j] i j dAB(2,3) by simp
    also have "\<dots> = (\<Sum>k = 0 ..< mat_cols B.
        (\<Sum>l = 0 ..< mat_cols A. Mat_entry A i l * Mat_entry B l k) * Mat_entry C k j)"
      using Mat_mul_entry[OF AB i] by simp
    also have "\<dots> = (\<Sum>k = 0 ..< mat_cols B. \<Sum>l = 0 ..< mat_cols A.
        Mat_entry A i l * (Mat_entry B l k * Mat_entry C k j))"
      by (simp add: sum_distrib_right mult.assoc)
    also have "\<dots> = (\<Sum>l = 0 ..< mat_cols A. \<Sum>k = 0 ..< mat_cols B.
        Mat_entry A i l * (Mat_entry B l k * Mat_entry C k j))"
      by (rule sum.swap)
    also have "\<dots> = (\<Sum>l = 0 ..< mat_cols A. Mat_entry A i l *
        (\<Sum>k = 0 ..< mat_cols B. Mat_entry B l k * Mat_entry C k j))"
      by (simp add: sum_distrib_left)
    also have "\<dots> = (\<Sum>l = 0 ..< mat_cols A. Mat_entry A i l * Mat_entry BC l j)"
      using Mat_mul_entry[OF BC _ j] dAB(6) by simp
    also have "\<dots> = Mat_entry R i j"
      using Mat_mul_entry[OF R i, of j] j dBC(3) by simp
    finally show "Mat_entry L i j = Mat_entry R i j" .
  qed
  with L R show ?thesis by simp
qed

subsection \<open>The projection of a lidar point\<close>

lemma homogeneous_dims:
  "Mat_ok (homogeneous it1)" "mat_rows (homogeneous it1) = 4" "mat_cols (homogeneous it1) = 1"
  by (simp_all add: homogeneous_def Mat_ok_def)

lemma Mat_at_column:
  assumes "Mat_ok Y" and "mat_cols Y = 1" and "mat_rows Y = 3"
  shows "Mat_at Y 0 0 = Inr (Mat_entry Y 0 0)" "Mat_at Y 1 0 = Inr (Mat_entry Y 1 0)"
    "Mat_at Y 0 2 = Inr (Mat_entry Y 2 0)"
  using assms by (simp_all add: Mat_at_def Mat_entry_def Mat_ok_def numeral_2_eq_2)

lemma pinhole_product:
  "Mat_mul pinhole identity4 = Inr pinhole"
  "Mat_mul identity4 (homogeneous it1) = Inr (homogeneous it1)"
  "Mat_mul pinhole (homogeneous it1) =
     Inr \<lparr>mat_rows = 3, mat_cols = Suc 0, mat_data = [lidar_x it1, lidar_y it1, lidar_z it1]\<rparr>"
  by (simp_all add: Mat_mul_def Mat_ok_def Mat_entry_def pinhole_def identity4_def
        homogeneous_def upt_rec)

lemma pinhole_dims:
  "Mat_ok pinhole" "Mat_ok identity4" "mat_rows pinhole = 3" "mat_cols pinhole = 4"
  "mat_rows identity4 = 4" "mat_cols identity4 = 4"
  by (simp_all add: Mat_ok_def pinhole_def identity4_def)

lemma pinhole_project:
  "lidar_z it1 \<noteq> 0 \<Longrightarrow>
   clusterLidarWithROI_project pinhole identity4 identity4 it1 =
     Inr (c_trunc (lidar_x it1 / lidar_z it1), c_trunc (lidar_y it1 / lidar_z it1))"
  by (simp add: clusterLidarWithROI_project_def pinhole_product Mat_at_def)

text \<open>
  Claim C9. For every lidar point and all matrices whose dimensions fit (a projection
  matrix of 3 rows, a transform of 4 columns), the pixel comes from the homogeneous
  coordinate \<open>(x, y, z, 1)\<close>: the extrinsic transform \<open>RT\<close> applied to it, then the
  rectification \<open>R_rect_xx\<close>, then the projection \<open>P_rect_xx\<close> give a 3 by 1 vector \<open>Y\<close>
  (the source multiplies the three matrices first; the products are equal), and the
  pixel is the first and the second component of \<open>Y\<close> divided by its third component,
  the depth, each quotient converted to \<open>int\<close> towards zero. The divisor
  \<open>Y.at<double>(0, 2)\<close> is that third component: in the one-column vector the element
  two places after the start of row 0 is the element of row 2. When the depth is 0 the
  quotient is not finite and its conversion to \<open>int\<close> is undefined.
\<close>

theorem clusterLidarWithROI_project_depth:
  assumes "Mat_ok P_rect_xx" and "Mat_ok R_rect_xx" and "Mat_ok RT"
    and "mat_rows P_rect_xx = 3" and "mat_cols P_rect_xx = mat_rows R_rect_xx"
    and "mat_cols R_rect_xx = mat_rows RT" and "mat_cols RT = 4"
  shows "mat_data (homogeneous it1) = [lidar_x it1, lidar_y it1, lidar_z it1, 1] \<and>
     (\<exists>E1 E2 Y.
        Mat_mul RT (homogeneous it1) = Inr E1 \<and> Mat_mul R_rect_xx E1 = Inr E2 \<and>
        Mat_mul P_rect_xx E2 = Inr Y \<and> mat_rows Y = 3 \<and> mat_cols Y = 1 \<and>
        clusterLidarWithROI_project P_rect_xx R_rect_xx RT it1 =
          (if Mat_entry Y 2 0 = 0 then Inl UndefinedBehaviour
           else Inr (c_trunc (Mat_entry Y 0 0 / Mat_entry Y 2 0),
                     c_trunc (Mat_entry Y 1 0 / Mat_entry Y 2 0))))"
proof -
  let ?X = "homogeneous it1"
  note hX = homogeneous_dims[of it1]
  from Mat_mul_exists[OF assms(3) hX(1)] assms(7) hX(2) obtain E1 where
    E1: "Mat_mul RT ?X = Inr E1" by auto
  note dE1 = Mat_mul_dims[OF E1]
  from Mat_mul_exists[OF assms(2) dE1(1)] assms(6) dE1(2) obtain E2 where
    E2: "Mat_mul R_rect_xx E1 = Inr E2" by auto
  note dE2 = Mat_mul_dims[OF E2]
  from Mat_mul_exists[OF assms(1) dE2(1)] assms(5) dE2(2) obtain Y where
    Y: "Mat_mul P_rect_xx E2 = Inr Y" by auto
  note dY = Mat_mul_dims[OF Y]
  from Mat_mul_exists[OF assms(1,2,5)] obtain PR where PR: "Mat_mul P_rect_xx R_rect_xx = Inr PR"
    by auto
  note dPR = Mat_mul_dims[OF PR]
  from Mat_mul_exists[OF dPR(1) assms(3)] dPR(3) assms(6) obtain PRT where
    PRT: "Mat_mul PR RT = Inr PRT" by auto
  have "Mat_mul PRT ?X = Mat_mul PR E1" by (rule Mat_mul_assoc[OF PRT E1])
  also have "\<dots> = Mat_mul P_rect_xx E2" by (rule Mat_mul_assoc[OF PR E2])
  finally have code: "Mat_mul PRT ?X = Inr Y" using Y by simp
  have rows: "mat_rows Y = 3" using dY(2) assms(4) by simp
  have cols: "mat_cols Y = 1" using dY(3) dE2(3) dE1(3) hX(3) by simp
  note at = Mat_at_column[OF dY(1) cols rows]
  have "clusterLidarWithROI_project P_rect_xx R_rect_xx RT it1 =
          (if Mat_entry Y 2 0 = 0 then Inl UndefinedBehaviour
           else Inr (c_trunc (Mat_entry Y 0 0 / Mat_entry Y 2 0),
                     c_trunc (Mat_entry Y 1 0 / Mat_entry Y 2 0)))"
    by (simp only: clusterLidarWithROI_project_def Let_def PR PRT code at sum.case)
  with E1 E2 Y rows cols show ?thesis by (auto simp: homogeneous_def)
qed

theorem clusterLidarWithROI_project_depth_witness:
  "Mat_ok pinhole \<and> Mat_ok identity4 \<and> mat_rows pinhole = 3 \<and>
   mat_cols pinhole = mat_rows identity4 \<and> mat_cols identity4 = mat_rows identity4 \<and>
   mat_cols identity4 = 4 \<and>
   Mat_mul identity4 (homogeneous \<lparr>lidar_x = 2, lidar_y = 4, lidar_z = 2, lidar_r = 0\<rparr>) =
     Inr \<lparr>mat_rows = 4, mat_cols = 1, mat_data = [2, 4, 2, 1]\<rparr> \<and>
   Mat_mul pinhole \<lparr>mat_rows = 4, mat_cols = 1, mat_data = [2, 4, 2, 1]\<rparr> =
     Inr \<lparr>mat_rows = 3, mat_cols = 1, mat_data = [2, 4, 2]\<rparr> \<and>
   clusterLidarWithROI_project pinhole identity4 identity4
     \<lparr>lidar_x = 2, lidar_y = 4, lidar_z = 2, lidar_r = 0\<rparr> = Inr (1, 2)"
proof -
  let ?p = "\<lparr>lidar_x = 2, lidar_y = 4, lidar_z = 2, lidar_r = 0\<rparr>"
  have h: "homogeneous ?p = \<lparr>mat_rows = 4, mat_cols = 1, mat_data = [2, 4, 2, 1]\<rparr>"
    by (simp add: homogeneous_def)
  have m1: "Mat_mul identity4 (homogeneous ?p) = Inr (homogeneous ?p)"
    by (rule pinhole_product)
  have m2: "Mat_mul pinhole (homogeneous ?p) =
      Inr \<lparr>mat_rows = 3, mat_cols = 1, mat_data = [2, 4, 2]\<rparr>"
    by (simp add: pinhole_product)
  have d: "mat_cols pinhole = mat_rows identity4" "mat_cols identity4 = mat_rows identity4"
    by (simp_all add: pinhole_dims)
  from clusterLidarWithROI_project_depth[OF pinhole_dims(1) pinhole_dims(2) pinhole_dims(2)
      pinhole_dims(3) d(1) d(2) pinhole_dims(6), of ?p]
  obtain E1 E2 Y where
    e1: "Mat_mul identity4 (homogeneous ?p) = Inr E1" and
    e2: "Mat_mul identity4 E1 = Inr E2" and
    y: "Mat_mul pinhole E2 = Inr Y" and
    px: "clusterLidarWithROI_project pinhole identity4 identity4 ?p =
       (if Mat_entry Y 2 0 = 0 then Inl UndefinedBehaviour
        else Inr (c_trunc (Mat_entry Y 0 0 / Mat_entry Y 2 0),
                  c_trunc (Mat_entry Y 1 0 / Mat_entry Y 2 0)))"
    by blast
  from e1 m1 have E1: "E1 = homogeneous ?p" by simp
  from e2 m1 have E2: "E2 = homogeneous ?p" unfolding E1 by simp
  from y m2 have Y: "Y = \<lparr>mat_rows = 3, mat_cols = 1, mat_data = [2, 4, 2]\<rparr>"
    unfolding E2 by simp
  have "clusterLidarWithROI_project pinhole identity4 identity4 ?p = Inr (1, 2)"
    unfolding px Y by (simp add: Mat_entry_def c_trunc_def)
  with m1 m2 d pinhole_dims show ?thesis unfolding h by simp
qed

subsection \<open>A point goes to the one box that encloses it\<close>

lemma distinct_singleton_set:
  assumes "distinct xs" and "set xs = {k}"
  shows "xs = [k]"
proof (cases xs)
  case Nil
  with assms(2) show ?thesis by simp
next
  case (Cons a t)
  with assms(2) have a: "a = k" by auto
  from Cons assms(1) a have "k \<notin> set t" by simp
  moreover from Cons assms(2) have "set t \<subseteq> {k}" by auto
  ultimately have "t = []" by (cases t) auto
  with Cons a show ?thesis by simp
qed

lemma filter_upt_single:
  "filter P [0 ..< n] = [k] \<longleftrightarrow> k < n \<and> P k \<and> (\<forall>j < n. j \<noteq> k \<longrightarrow> \<not> P j)"
proof
  assume "filter P [0 ..< n] = [k]"
  then have "set (filter P [0 ..< n]) = {k}" by simp
  then have "{j. j < n \<and> P j} = {k}" by (simp add: conj_commute)
  then show "k < n \<and> P k \<and> (\<forall>j < n. j \<noteq> k \<longrightarrow> \<not> P j)" by blast
next
  assume a: "k < n \<and> P k \<and> (\<forall>j < n. j \<noteq> k \<longrightarrow> \<not> P j)"
  then have s: "set (filter P [0 ..< n]) = {k}" by auto
  have d: "distinct (filter P [0 ..< n])" by simp
  from d s show "filter P [0 ..< n] = [k]" by (rule distinct_singleton_set)
qed

lemma length_one_iff: "length xs = Suc 0 \<longleftrightarrow> (\<exists>k. xs = [k])"
  by (cases xs) auto

lemma c_trunc_of_int: "c_trunc (of_int k) = k"
  by (simp add: c_trunc_def)

lemma smallerBox_centred:
  assumes "shrinkFactor * of_int (rect_width r) = of_int (2 * n)"
    and "shrinkFactor * of_int (rect_height r) = of_int (2 * m)"
  shows "smallerBox shrinkFactor r =
     \<lparr>rect_x = rect_x r + n, rect_y = rect_y r + m,
      rect_width = rect_width r - 2 * n, rect_height = rect_height r - 2 * m\<rparr>"
proof -
  have x: "of_int (rect_x r) + shrinkFactor * of_int (rect_width r) / 2 = (of_int (rect_x r + n) :: real)"
    using assms(1) by simp
  have y: "of_int (rect_y r) + shrinkFactor * of_int (rect_height r) / 2 = (of_int (rect_y r + m) :: real)"
    using assms(2) by simp
  have w: "of_int (rect_width r) * (1 - shrinkFactor) = (of_int (rect_width r - 2 * n) :: real)"
    using assms(1) by (simp add: algebra_simps)
  have h: "of_int (rect_height r) * (1 - shrinkFactor) = (of_int (rect_height r - 2 * m) :: real)"
    using assms(2) by (simp add: algebra_simps)
  show ?thesis
    unfolding smallerBox_def x y w h by (simp only: c_trunc_of_int)
qed

lemma clusterLidarWithROI_assign_spec:
  "length (clusterLidarWithROI_assign boxes shrinkFactor it1 pixel) = length boxes \<and>
   (\<forall>k < length boxes.
      lidarPoints (clusterLidarWithROI_assign boxes shrinkFactor it1 pixel ! k) =
        (if only_box shrinkFactor boxes pixel k
         then lidarPoints (boxes ! k) @ [it1] else lidarPoints (boxes ! k)) \<and>
      roi (clusterLidarWithROI_assign boxes shrinkFactor it1 pixel ! k) = roi (boxes ! k) \<and>
      boxID (clusterLidarWithROI_assign boxes shrinkFactor it1 pixel ! k) = boxID (boxes ! k) \<and>
      kptMatches (clusterLidarWithROI_assign boxes shrinkFactor it1 pixel ! k) = kptMatches (boxes ! k))"
proof -
  let ?P = "encloses shrinkFactor boxes pixel"
  let ?e = "filter ?P [0 ..< length boxes]"
  let ?res = "clusterLidarWithROI_assign boxes shrinkFactor it1 pixel"
  show ?thesis
  proof (cases "length ?e = 1")
    case False
    then have "\<not> (\<exists>k. ?e = [k])" by (simp add: length_one_iff)
    then have none: "\<And>k. \<not> (k < length boxes \<and> ?P k \<and> (\<forall>j < length boxes. j \<noteq> k \<longrightarrow> \<not> ?P j))"
      using filter_upt_single[of ?P "length boxes"] by blast
    from False have "?res = boxes"
      by (simp add: clusterLidarWithROI_assign_def Let_def)
    with none show ?thesis by (auto simp: only_box_def)
  next
    case True
    then obtain k0 where e: "?e = [k0]" by (auto simp: length_one_iff)
    then have k0: "k0 < length boxes" "?P k0" "\<forall>j < length boxes. j \<noteq> k0 \<longrightarrow> \<not> ?P j"
      using filter_upt_single[of ?P "length boxes" k0] by simp_all
    have r: "?res = boxes[k0 := (boxes ! k0)\<lparr>lidarPoints := lidarPoints (boxes ! k0) @ [it1]\<rparr>]"
      using e by (simp add: clusterLidarWithROI_assign_def Let_def)
    have only: "only_box shrinkFactor boxes pixel k \<longleftrightarrow> k = k0"
      if "k < length boxes" for k
      unfolding only_box_def using that k0 by blast
    show ?thesis
      unfolding r using only k0(1) by (auto simp: nth_list_update)
  qed
qed

lemma only_box_unique:
  "only_box shrinkFactor boxes pixel k \<Longrightarrow> only_box shrinkFactor boxes pixel k' \<Longrightarrow>
   k < length boxes \<Longrightarrow> k' < length boxes \<Longrightarrow> k = k'"
  unfolding only_box_def by blast

lemma only_box_count:
  "(\<exists>k < length boxes. only_box shrinkFactor boxes pixel k) \<longleftrightarrow>
   length (filter (encloses shrinkFactor boxes pixel) [0 ..< length boxes]) = 1"
proof -
  have "length (filter (encloses shrinkFactor boxes pixel) [0 ..< length boxes]) = 1 \<longleftrightarrow>
      (\<exists>k. filter (encloses shrinkFactor boxes pixel) [0 ..< length boxes] = [k])"
    by (simp add: length_one_iff)
  also have "\<dots> \<longleftrightarrow> (\<exists>k < length boxes. only_box shrinkFactor boxes pixel k)"
    unfolding filter_upt_single only_box_def by blast
  finally show ?thesis by simp
qed

lemma only_box_cong:
  assumes "length boxes' = length boxes" and "\<forall>k < length boxes. roi (boxes' ! k) = roi (boxes ! k)"
    and "k < length boxes"
  shows "only_box shrinkFactor boxes' pixel k = only_box shrinkFactor boxes pixel k"
  using assms by (auto simp: only_box_def encloses_def)

lemma assigned_to_cong:
  assumes "length boxes' = length boxes" and "\<forall>k < length boxes. roi (boxes' ! k) = roi (boxes ! k)"
    and "k < length boxes"
  shows "assigned_to shrinkFactor boxes' P R RT k = assigned_to shrinkFactor boxes P R RT k"
  using only_box_cong[OF assms]
  by (auto simp: assigned_to_def fun_eq_iff split: sum.splits)

lemma clusterLidarWithROI_loop:
  assumes "list_all (projects P R RT) lidarPts"
  shows "\<exists>boxes'. clusterLidarWithROI boxes lidarPts shrinkFactor P R RT = Inr boxes' \<and>
     length boxes' = length boxes \<and>
     (\<forall>k < length boxes.
        lidarPoints (boxes' ! k) =
          lidarPoints (boxes ! k) @ filter (assigned_to shrinkFactor boxes P R RT k) lidarPts \<and>
        roi (boxes' ! k) = roi (boxes ! k) \<and> boxID (boxes' ! k) = boxID (boxes ! k) \<and>
        kptMatches (boxes' ! k) = kptMatches (boxes ! k))"
  using assms
proof (induction lidarPts arbitrary: boxes)
  case Nil
  then show ?case by simp
next
  case (Cons lp rest)
  from Cons.prems have rest: "list_all (projects P R RT) rest" and "projects P R RT lp"
    by simp_all
  then obtain pixel where px: "clusterLidarWithROI_project P R RT lp = Inr pixel"
    by (cases "clusterLidarWithROI_project P R RT lp") (simp_all add: projects_def)
  let ?b1 = "clusterLidarWithROI_assign boxes shrinkFactor lp pixel"
  note a = clusterLidarWithROI_assign_spec[of boxes shrinkFactor lp pixel]
  from a have len1: "length ?b1 = length boxes"
    and roi1: "\<forall>k < length boxes. roi (?b1 ! k) = roi (boxes ! k)" by simp_all
  from Cons.IH[OF rest, of ?b1] obtain boxes' where
    r: "clusterLidarWithROI ?b1 rest shrinkFactor P R RT = Inr boxes'"
    and len: "length boxes' = length ?b1"
    and ih: "\<And>k. k < length ?b1 \<Longrightarrow>
        lidarPoints (boxes' ! k) =
          lidarPoints (?b1 ! k) @ filter (assigned_to shrinkFactor ?b1 P R RT k) rest \<and>
        roi (boxes' ! k) = roi (?b1 ! k) \<and> boxID (boxes' ! k) = boxID (?b1 ! k) \<and>
        kptMatches (boxes' ! k) = kptMatches (?b1 ! k)"
    by blast
  have step: "clusterLidarWithROI boxes (lp # rest) shrinkFactor P R RT = Inr boxes'"
    using px r by simp
  have "lidarPoints (boxes' ! k) =
          lidarPoints (boxes ! k) @ filter (assigned_to shrinkFactor boxes P R RT k) (lp # rest) \<and>
        roi (boxes' ! k) = roi (boxes ! k) \<and> boxID (boxes' ! k) = boxID (boxes ! k) \<and>
        kptMatches (boxes' ! k) = kptMatches (boxes ! k)"
    if k: "k < length boxes" for k
  proof -
    from k len1 have k1: "k < length ?b1" by simp
    have c: "assigned_to shrinkFactor ?b1 P R RT k = assigned_to shrinkFactor boxes P R RT k"
      by (rule assigned_to_cong[OF len1 roi1 k])
    have here: "assigned_to shrinkFactor boxes P R RT k lp = only_box shrinkFactor boxes pixel k"
      by (simp add: assigned_to_def px)
    from a k have l1: "lidarPoints (?b1 ! k) =
        (if only_box shrinkFactor boxes pixel k
         then lidarPoints (boxes ! k) @ [lp] else lidarPoints (boxes ! k))"
      and o1: "roi (?b1 ! k) = roi (boxes ! k)" "boxID (?b1 ! k) = boxID (boxes ! k)"
        "kptMatches (?b1 ! k) = kptMatches (boxes ! k)" by simp_all
    from ih[OF k1] show ?thesis unfolding c l1 o1 by (simp add: here)
  qed
  with step len len1 show ?case by simp
qed

lemma c_trunc_near: "\<bar>of_int (c_trunc v) - v\<bar> < 1"
  unfolding c_trunc_def by (cases "0 \<le> v") (simp_all, linarith+)

lemma near_centre:
  fixes a b A B c :: real
  assumes "\<bar>a - A\<bar> < 1" and "\<bar>b - B\<bar> < 1" and "A + B / 2 = c"
  shows "\<bar>(a + b / 2) - c\<bar> < 3 / 2"
  using assms by linarith

lemma smallerBox_near:
  "\<bar>real_of_int (rect_width (smallerBox shrinkFactor r)) - (1 - shrinkFactor) * of_int (rect_width r)\<bar> < 1"
  "\<bar>real_of_int (rect_height (smallerBox shrinkFactor r)) - (1 - shrinkFactor) * of_int (rect_height r)\<bar> < 1"
  "\<bar>(real_of_int (rect_x (smallerBox shrinkFactor r)) + of_int (rect_width (smallerBox shrinkFactor r)) / 2)
     - (of_int (rect_x r) + of_int (rect_width r) / 2)\<bar> < 3 / 2"
  "\<bar>(real_of_int (rect_y (smallerBox shrinkFactor r)) + of_int (rect_height (smallerBox shrinkFactor r)) / 2)
     - (of_int (rect_y r) + of_int (rect_height r) / 2)\<bar> < 3 / 2"
proof -
  let ?x = "of_int (rect_x r) + shrinkFactor * of_int (rect_width r) / 2"
  let ?y = "of_int (rect_y r) + shrinkFactor * of_int (rect_height r) / 2"
  let ?w = "of_int (rect_width r) * (1 - shrinkFactor)"
  let ?h = "of_int (rect_height r) * (1 - shrinkFactor)"
  have x: "\<bar>of_int (c_trunc ?x) - ?x\<bar> < 1" and y: "\<bar>of_int (c_trunc ?y) - ?y\<bar> < 1"
    and w: "\<bar>of_int (c_trunc ?w) - ?w\<bar> < 1" and h: "\<bar>of_int (c_trunc ?h) - ?h\<bar> < 1"
    by (rule c_trunc_near)+
  show "\<bar>real_of_int (rect_width (smallerBox shrinkFactor r)) - (1 - shrinkFactor) * of_int (rect_width r)\<bar> < 1"
    using w by (simp add: smallerBox_def mult.commute)
  show "\<bar>real_of_int (rect_height (smallerBox shrinkFactor r)) - (1 - shrinkFactor) * of_int (rect_height r)\<bar> < 1"
    using h by (simp add: smallerBox_def mult.commute)
  have "?x + ?w / 2 = of_int (rect_x r) + of_int (rect_width r) / 2" by (simp add: field_simps)
  from near_centre[OF x w this] show "\<bar>(real_of_int (rect_x (smallerBox shrinkFactor r)) + of_int (rect_width (smallerBox shrinkFactor r)) / 2)
     - (of_int (rect_x r) + of_int (rect_width r) / 2)\<bar> < 3 / 2"
    by (simp add: smallerBox_def)
  have "?y + ?h / 2 = of_int (rect_y r) + of_int (rect_height r) / 2" by (simp add: field_simps)
  from near_centre[OF y h this] show "\<bar>(real_of_int (rect_y (smallerBox shrinkFactor r)) + of_int (rect_height (smallerBox shrinkFactor r)) / 2)
     - (of_int (rect_y r) + of_int (rect_height r) / 2)\<bar> < 3 / 2"
    by (simp add: smallerBox_def)
qed

text \<open>
  Claim C8. For all boxes, lidar points, \<open>shrinkFactor\<close> and matrices such that every
  point has a pixel (the matrices fit and no depth is 0), \<open>clusterLidarWithROI\<close> returns
  the boxes where box \<open>k\<close> holds its former \<open>lidarPoints\<close> followed by exactly those
  points, in their order, whose pixel lies inside the shrunk rectangle of box \<open>k\<close> and of
  no other box; \<open>roi\<close>, \<open>boxID\<close> and \<open>kptMatches\<close> are unchanged. For every point with a
  pixel, some box receives it if and only if the number of shrunk rectangles that contain
  the pixel is 1: with none or with two or more no box receives it. The shrunk rectangle
  has \<open>1 - shrinkFactor\<close> times the width and the height and the same centre, up to the
  truncation of its four fields to \<open>int\<close>: width and height are less than one pixel off,
  the centre is less than one and a half pixels off in each direction.
\<close>

theorem clusterLidarWithROI_exactly_one:
  assumes "list_all (projects P_rect_xx R_rect_xx RT) lidarPts"
  shows "\<exists>boxes'.
     clusterLidarWithROI boxes lidarPts shrinkFactor P_rect_xx R_rect_xx RT = Inr boxes' \<and>
     length boxes' = length boxes \<and>
     (\<forall>k < length boxes.
        lidarPoints (boxes' ! k) =
          lidarPoints (boxes ! k) @
          filter (assigned_to shrinkFactor boxes P_rect_xx R_rect_xx RT k) lidarPts \<and>
        roi (boxes' ! k) = roi (boxes ! k) \<and> boxID (boxes' ! k) = boxID (boxes ! k) \<and>
        kptMatches (boxes' ! k) = kptMatches (boxes ! k)) \<and>
     (\<forall>it1 pixel. clusterLidarWithROI_project P_rect_xx R_rect_xx RT it1 = Inr pixel \<longrightarrow>
        (\<forall>k < length boxes.
           assigned_to shrinkFactor boxes P_rect_xx R_rect_xx RT k it1 \<longleftrightarrow>
             Rect_contains (smallerBox shrinkFactor (roi (boxes ! k))) pixel \<and>
             (\<forall>j < length boxes. j \<noteq> k \<longrightarrow>
                \<not> Rect_contains (smallerBox shrinkFactor (roi (boxes ! j))) pixel)) \<and>
        ((\<exists>k < length boxes. assigned_to shrinkFactor boxes P_rect_xx R_rect_xx RT k it1) \<longleftrightarrow>
           length (filter (\<lambda>j. Rect_contains (smallerBox shrinkFactor (roi (boxes ! j))) pixel)
                     [0 ..< length boxes]) = 1)) \<and>
     (\<forall>r. \<bar>real_of_int (rect_width (smallerBox shrinkFactor r)) - (1 - shrinkFactor) * of_int (rect_width r)\<bar> < 1 \<and>
          \<bar>real_of_int (rect_height (smallerBox shrinkFactor r)) - (1 - shrinkFactor) * of_int (rect_height r)\<bar> < 1 \<and>
          \<bar>(real_of_int (rect_x (smallerBox shrinkFactor r)) + of_int (rect_width (smallerBox shrinkFactor r)) / 2)
             - (of_int (rect_x r) + of_int (rect_width r) / 2)\<bar> < 3 / 2 \<and>
          \<bar>(real_of_int (rect_y (smallerBox shrinkFactor r)) + of_int (rect_height (smallerBox shrinkFactor r)) / 2)
             - (of_int (rect_y r) + of_int (rect_height r) / 2)\<bar> < 3 / 2)"
proof -
  from clusterLidarWithROI_loop[OF assms, of boxes shrinkFactor] obtain boxes' where
    r: "clusterLidarWithROI boxes lidarPts shrinkFactor P_rect_xx R_rect_xx RT = Inr boxes'"
    and len: "length boxes' = length boxes"
    and each: "\<forall>k < length boxes.
        lidarPoints (boxes' ! k) =
          lidarPoints (boxes ! k) @
          filter (assigned_to shrinkFactor boxes P_rect_xx R_rect_xx RT k) lidarPts \<and>
        roi (boxes' ! k) = roi (boxes ! k) \<and> boxID (boxes' ! k) = boxID (boxes ! k) \<and>
        kptMatches (boxes' ! k) = kptMatches (boxes ! k)"
    by blast
  have enc: "encloses shrinkFactor boxes pixel =
      (\<lambda>j. Rect_contains (smallerBox shrinkFactor (roi (boxes ! j))) pixel)" for pixel
    by (simp add: encloses_def fun_eq_iff)
  have one: "\<forall>it1 pixel. clusterLidarWithROI_project P_rect_xx R_rect_xx RT it1 = Inr pixel \<longrightarrow>
        (\<forall>k < length boxes.
           assigned_to shrinkFactor boxes P_rect_xx R_rect_xx RT k it1 \<longleftrightarrow>
             Rect_contains (smallerBox shrinkFactor (roi (boxes ! k))) pixel \<and>
             (\<forall>j < length boxes. j \<noteq> k \<longrightarrow>
                \<not> Rect_contains (smallerBox shrinkFactor (roi (boxes ! j))) pixel)) \<and>
        ((\<exists>k < length boxes. assigned_to shrinkFactor boxes P_rect_xx R_rect_xx RT k it1) \<longleftrightarrow>
           length (filter (\<lambda>j. Rect_contains (smallerBox shrinkFactor (roi (boxes ! j))) pixel)
                     [0 ..< length boxes]) = 1)"
  proof (intro allI impI)
    fix it1 pixel
    assume px: "clusterLidarWithROI_project P_rect_xx R_rect_xx RT it1 = Inr pixel"
    then have a: "assigned_to shrinkFactor boxes P_rect_xx R_rect_xx RT k it1 =
        only_box shrinkFactor boxes pixel k" for k
      by (simp add: assigned_to_def)
    show "(\<forall>k < length boxes.
           assigned_to shrinkFactor boxes P_rect_xx R_rect_xx RT k it1 \<longleftrightarrow>
             Rect_contains (smallerBox shrinkFactor (roi (boxes ! k))) pixel \<and>
             (\<forall>j < length boxes. j \<noteq> k \<longrightarrow>
                \<not> Rect_contains (smallerBox shrinkFactor (roi (boxes ! j))) pixel)) \<and>
        ((\<exists>k < length boxes. assigned_to shrinkFactor boxes P_rect_xx R_rect_xx RT k it1) \<longleftrightarrow>
           length (filter (\<lambda>j. Rect_contains (smallerBox shrinkFactor (roi (boxes ! j))) pixel)
                     [0 ..< length boxes]) = 1)"
      unfolding a using only_box_count[of boxes shrinkFactor pixel]
      unfolding enc only_box_def enc by simp
  qed
  have near: "\<forall>r. \<bar>real_of_int (rect_width (smallerBox shrinkFactor r)) - (1 - shrinkFactor) * of_int (rect_width r)\<bar> < 1 \<and>
          \<bar>real_of_int (rect_height (smallerBox shrinkFactor r)) - (1 - shrinkFactor) * of_int (rect_height r)\<bar> < 1 \<and>
          \<bar>(real_of_int (rect_x (smallerBox shrinkFactor r)) + of_int (rect_width (smallerBox shrinkFactor r)) / 2)
             - (of_int (rect_x r) + of_int (rect_width r) / 2)\<bar> < 3 / 2 \<and>
          \<bar>(real_of_int (rect_y (smallerBox shrinkFactor r)) + of_int (rect_height (smallerBox shrinkFactor r)) / 2)
             - (of_int (rect_y r) + of_int (rect_height r) / 2)\<bar> < 3 / 2"
    using smallerBox_near by blast
  show ?thesis
    by (rule exI[of _ boxes']) (rule conjI[OF r conjI[OF len conjI[OF each conjI[OF one near]]]])
qed

lemma two_boxes_smaller:
  "smallerBox (1 / 10) (roi (two_boxes ! 0)) =
     \<lparr>rect_x = 5, rect_y = 5, rect_width = 90, rect_height = 90\<rparr>"
  "smallerBox (1 / 10) (roi (two_boxes ! Suc 0)) =
     \<lparr>rect_x = 55, rect_y = 5, rect_width = 90, rect_height = 90\<rparr>"
  by (simp_all add: smallerBox_def two_boxes_def c_trunc_def)

lemma two_boxes_encloses:
  "encloses (1 / 10) two_boxes (20, 50) 0" "\<not> encloses (1 / 10) two_boxes (20, 50) (Suc 0)"
  "encloses (1 / 10) two_boxes (60, 50) 0" "encloses (1 / 10) two_boxes (60, 50) (Suc 0)"
  "\<not> encloses (1 / 10) two_boxes (200, 50) 0" "\<not> encloses (1 / 10) two_boxes (200, 50) (Suc 0)"
  by (simp_all add: encloses_def two_boxes_smaller)

lemma two_boxes_only_box:
  "only_box (1 / 10) two_boxes (20, 50) 0" "\<not> only_box (1 / 10) two_boxes (20, 50) (Suc 0)"
  "\<not> only_box (1 / 10) two_boxes (60, 50) 0" "\<not> only_box (1 / 10) two_boxes (60, 50) (Suc 0)"
  "\<not> only_box (1 / 10) two_boxes (200, 50) 0" "\<not> only_box (1 / 10) two_boxes (200, 50) (Suc 0)"
proof -
  have len: "length two_boxes = 2" by (simp add: two_boxes_def)
  have all2: "(\<forall>j < length two_boxes. Q j) \<longleftrightarrow> Q 0 \<and> Q (Suc 0)" for Q
    unfolding len by (auto simp: numeral_2_eq_2 less_Suc_eq)
  show "only_box (1 / 10) two_boxes (20, 50) 0" "\<not> only_box (1 / 10) two_boxes (20, 50) (Suc 0)"
  "\<not> only_box (1 / 10) two_boxes (60, 50) 0" "\<not> only_box (1 / 10) two_boxes (60, 50) (Suc 0)"
  "\<not> only_box (1 / 10) two_boxes (200, 50) 0" "\<not> only_box (1 / 10) two_boxes (200, 50) (Suc 0)"
    using two_boxes_encloses by (simp_all add: only_box_def all2)
qed

lemma roi_cloud_project:
  "clusterLidarWithROI_project pinhole identity4 identity4 (roi_cloud ! 0) = Inr (20, 50)"
  "clusterLidarWithROI_project pinhole identity4 identity4 (roi_cloud ! Suc 0) = Inr (60, 50)"
  "clusterLidarWithROI_project pinhole identity4 identity4 (roi_cloud ! 2) = Inr (200, 50)"
  "clusterLidarWithROI_project pinhole identity4 identity4 (roi_cloud ! 3) = Inr (20, 50)"
  by (simp_all add: pinhole_project roi_cloud_def c_trunc_def)

lemma roi_cloud_nth:
  "roi_cloud = [roi_cloud ! 0, roi_cloud ! Suc 0, roi_cloud ! 2, roi_cloud ! 3]"
  by (simp add: roi_cloud_def)

lemma roi_cloud_assigned:
  "filter (assigned_to (1 / 10) two_boxes pinhole identity4 identity4 0) roi_cloud
     = [roi_cloud ! 0, roi_cloud ! 3]"
  "filter (assigned_to (1 / 10) two_boxes pinhole identity4 identity4 (Suc 0)) roi_cloud = []"
  by (subst roi_cloud_nth, simp add: assigned_to_def roi_cloud_project two_boxes_only_box)+

theorem clusterLidarWithROI_exactly_one_witness:
  "list_all (projects pinhole identity4 identity4) roi_cloud \<and>
   (\<exists>boxes'. clusterLidarWithROI two_boxes roi_cloud (1 / 10) pinhole identity4 identity4 = Inr boxes' \<and>
      lidarPoints (boxes' ! 0) = [roi_cloud ! 0, roi_cloud ! 3] \<and>
      lidarPoints (boxes' ! 1) = [])"
proof -
  have p: "list_all (projects pinhole identity4 identity4) roi_cloud"
    by (subst roi_cloud_nth) (simp add: projects_def roi_cloud_project)
  have lp: "lidarPoints (two_boxes ! 0) = []" "lidarPoints (two_boxes ! 1) = []"
    and k: "0 < length two_boxes" "1 < length two_boxes"
    by (simp_all add: two_boxes_def)
  from clusterLidarWithROI_exactly_one[OF p, of two_boxes "1 / 10"] obtain boxes' where
    r: "clusterLidarWithROI two_boxes roi_cloud (1 / 10) pinhole identity4 identity4 = Inr boxes'"
    and each: "\<forall>k < length two_boxes.
        lidarPoints (boxes' ! k) =
          lidarPoints (two_boxes ! k) @
          filter (assigned_to (1 / 10) two_boxes pinhole identity4 identity4 k) roi_cloud \<and>
        roi (boxes' ! k) = roi (two_boxes ! k) \<and> boxID (boxes' ! k) = boxID (two_boxes ! k) \<and>
        kptMatches (boxes' ! k) = kptMatches (two_boxes ! k)"
    by blast
  from each k(1) have b0: "lidarPoints (boxes' ! 0) =
      lidarPoints (two_boxes ! 0) @
      filter (assigned_to (1 / 10) two_boxes pinhole identity4 identity4 0) roi_cloud"
    by blast
  from each k(2) have b1: "lidarPoints (boxes' ! 1) =
      lidarPoints (two_boxes ! 1) @
      filter (assigned_to (1 / 10) two_boxes pinhole identity4 identity4 1) roi_cloud"
    by blast
  have "lidarPoints (boxes' ! 0) = [roi_cloud ! 0, roi_cloud ! 3]"
    unfolding b0 lp by (simp only: roi_cloud_assigned append_Nil)
  moreover have "lidarPoints (boxes' ! 1) = []"
    unfolding b1 lp by (simp only: roi_cloud_assigned append_Nil One_nat_def)
  ultimately show ?thesis using p r by blast
qed

end
